theory Spec2Isabelle
  imports Main "HOL-Library.Word" "HOL-Library.Sublist"
begin

unbundle bit_operations_syntax

section \<open>OpenCL examples for Windows: the host programs and their kernels\<close>

text \<open>
  The repository is a collection of independent benchmark programs.  Each one enumerates
  the OpenCL devices, builds one kernel, runs it and prints a table.  The definitions below
  embed the pieces of these programs that carry a computation of their own: the work
  distribution, the data path and the verification loop of example 004, the error paths of
  examples 000 and 004, the breakeven bookkeeping of example 003, the serial matrix product
  of example 006 and the kernels \<open>vector_add\<close>, \<open>matrix_multiply\<close> and
  \<open>matrix_multiply_tiled\<close>.

  The OpenCL runtime itself is not part of the repository.  What it returns (status codes,
  device counts, timings, the contents of uninitialised memory) is an input of the model.
\<close>

subsection \<open>Machine integers and status codes\<close>

text \<open>
  \<open>cl_uint\<close> is an unsigned and \<open>int\<close>/\<open>cl_int\<close> a signed 32-bit integer.  All three are
  32-bit words here: \<open>+\<close>, \<open>-\<close> and \<open>*\<close> wrap, \<open>unat\<close> reads a word as unsigned and
  \<open>sint\<close> as two's complement.
\<close>

type_synonym cl_uint = "32 word"
type_synonym c_int = "32 word"
type_synonym cl_int = "32 word"

definition CL_SUCCESS :: cl_int where
  "CL_SUCCESS = 0"

text \<open>
  What a program prints before it gives up, and how it ends.  \<open>Exit n d\<close> is \<open>exit(n)\<close>
  (or \<open>return n\<close> from \<open>main\<close>) after the diagnostic \<open>d\<close> went to the error stream.
  \<open>DivisionByZero\<close> and \<open>OutOfBounds\<close> are the two faults of the C programs that the model
  keeps apart from a regular exit.
\<close>

datatype diagnostic =
    ErrorAt cl_int string
  | ErrorDuring string cl_int
  | BuildError nat
  | KernelFileMissing string

datatype error = Exit nat diagnostic | DivisionByZero | OutOfBounds

subsection \<open>Example 004: device discovery and work distribution\<close>

text \<open>\<open>#define ARRAY_SIZE (1024 * 1024 * 16)\<close>\<close>

definition ARRAY_SIZE :: c_int where
  "ARRAY_SIZE = 1024 * 1024 * 16"

text \<open>
  The macro \<open>CHECK_ERROR(err, msg)\<close>:
  \<^verbatim>\<open>if (err != CL_SUCCESS) { fprintf(stderr, "Error %d at %s\n", err, msg); exit(1); }\<close>
\<close>

definition CHECK_ERROR :: "cl_int \<Rightarrow> string \<Rightarrow> error + unit" where
  "CHECK_ERROR err msg = (if err \<noteq> CL_SUCCESS then Inl (Exit 1 (ErrorAt err msg)) else Inr ())"

text \<open>
  \<open>read_kernel_source\<close> exits with status 1 when \<open>fopen\<close> fails.  Whether the file opens
  is an input; the text of the kernel is not modelled.
\<close>

definition read_kernel_source :: "string \<Rightarrow> bool \<Rightarrow> error + unit" where
  "read_kernel_source filename opens =
     (if \<not> opens then Inl (Exit 1 (KernelFileMissing filename)) else Inr ())"

text \<open>
  One platform as the runtime presents it to the discovery loop: the status and the count
  of the counting call \<open>clGetDeviceIDs(platforms[p], CL_DEVICE_TYPE_ALL, 0, NULL, &n)\<close> and
  the status of the call that fetches the ids.
\<close>

record platform =
  count_status :: cl_int
  num_platform_devices :: cl_uint
  ids_status :: cl_int

text \<open>
  The loop \<open>for (cl_uint p = 0; p < num_platforms; p++)\<close> of \<open>main\<close>.  A platform whose
  counting call fails or that has no device is passed over; only the fetching call is
  under \<open>CHECK_ERROR\<close>.  \<open>total_devices += num_platform_devices\<close> is unsigned.
\<close>

fun collect_devices :: "platform list \<Rightarrow> cl_uint \<Rightarrow> error + cl_uint" where
  "collect_devices [] total_devices = Inr total_devices"
| "collect_devices (p # ps) total_devices =
     (if count_status p = CL_SUCCESS \<and> num_platform_devices p > 0 then
        (case CHECK_ERROR (ids_status p) ''clGetDeviceIDs'' of
           Inl e \<Rightarrow> Inl e
         | Inr _ \<Rightarrow> collect_devices ps (total_devices + num_platform_devices p))
      else collect_devices ps total_devices)"

text \<open>
  \<open>int chunk_size = ARRAY_SIZE / num_devices;\<close>  The divisor is a \<open>cl_uint\<close>, so the
  division is unsigned.  The program does not test the divisor; the model makes the
  division by zero a result of its own.
\<close>

definition chunk_size :: "cl_uint \<Rightarrow> error + c_int" where
  "chunk_size num_devices =
     (if num_devices = 0 then Inl DivisionByZero else Inr (ARRAY_SIZE div num_devices))"

text \<open>
  The chunk of device \<open>i\<close>, as each of the three device loops computes it:
  \<^verbatim>\<open>int offset = i * chunk_size;
int size = (i == num_devices - 1) ? (ARRAY_SIZE - offset) : chunk_size;\<close>
  The result is the pair \<open>(offset, size)\<close>.
\<close>

definition device_chunk :: "cl_uint \<Rightarrow> c_int \<Rightarrow> cl_uint \<Rightarrow> c_int \<times> c_int" where
  "device_chunk num_devices cs i =
     (let offset = i * cs;
          size = (if i = num_devices - 1 then ARRAY_SIZE - offset else cs)
      in (offset, size))"

text \<open>The values of \<open>i\<close> in \<open>for (cl_uint i = 0; i < num_devices; i++)\<close>, in order.\<close>

definition device_loop :: "cl_uint \<Rightarrow> cl_uint list" where
  "device_loop num_devices = map word_of_nat [0..<unat num_devices]"

definition work_distribution :: "cl_uint \<Rightarrow> error + (c_int \<times> c_int) list" where
  "work_distribution num_devices =
     (case chunk_size num_devices of
        Inl e \<Rightarrow> Inl e
      | Inr cs \<Rightarrow> Inr (map (device_chunk num_devices cs) (device_loop num_devices)))"

text \<open>
  What the runtime answers during the first part of \<open>main\<close>: the two \<open>clGetPlatformIDs\<close>
  calls, the platforms, and whether \<open>vector_add.cl\<close> can be opened.
\<close>

record opencl_env =
  platform_count_status :: cl_int
  platform_ids_status :: cl_int
  platforms :: "platform list"
  kernel_file_opens :: bool

text \<open>
  \<open>main\<close> from its first line to the chunk of every device: platform queries, device
  discovery, loading the kernel source, the chunk size and the chunks.
\<close>

definition main_distribution :: "opencl_env \<Rightarrow> error + (c_int \<times> c_int) list" where
  "main_distribution env =
     (case CHECK_ERROR (platform_count_status env) ''clGetPlatformIDs count'' of
        Inl e \<Rightarrow> Inl e
      | Inr _ \<Rightarrow>
     (case CHECK_ERROR (platform_ids_status env) ''clGetPlatformIDs'' of
        Inl e \<Rightarrow> Inl e
      | Inr _ \<Rightarrow>
     (case collect_devices (platforms env) 0 of
        Inl e \<Rightarrow> Inl e
      | Inr num_devices \<Rightarrow>
     (case read_kernel_source ''vector_add.cl'' (kernel_file_opens env) of
        Inl e \<Rightarrow> Inl e
      | Inr _ \<Rightarrow> work_distribution num_devices))))"

text \<open>The host indices a chunk \<open>(offset, size)\<close> stands for.\<close>

definition chunk_range :: "c_int \<times> c_int \<Rightarrow> nat set" where
  "chunk_range c = {unat (fst c) ..< unat (fst c) + unat (snd c)}"

text \<open>The size of chunk \<open>k\<close> of \<open>n\<close> in unbounded arithmetic, used in the proofs.\<close>

definition chunk_nat_size :: "nat \<Rightarrow> nat \<Rightarrow> nat" where
  "chunk_nat_size n k = (if Suc k = n then 16777216 - k * (16777216 div n) else 16777216 div n)"

subsection \<open>Example 004: the data path\<close>

text \<open>
  An \<open>int\<close> used as an array index: the element exists when the index is not negative and
  below the length.  Everything else is a fault (\<open>OutOfBounds\<close>).
\<close>

definition in_bounds :: "c_int \<Rightarrow> 'a list \<Rightarrow> bool" where
  "in_bounds i xs = (0 \<le> sint i \<and> nat (sint i) < length xs)"

text \<open>
  The kernel of example 004 (\<open>vector_add.cl\<close>, on \<open>int\<close> buffers), run by the work item
  with global id \<open>global_id\<close>:
  \<^verbatim>\<open>__kernel void vector_add(__global const int *A, __global const int *B,
                         __global int *C, const int offset) {
    int i = get_global_id(0);
    C[i] = A[i] + B[i];
}\<close>
  The argument \<open>offset\<close> is not used.  \<open>get_global_id\<close> returns a \<open>size_t\<close> that the
  assignment truncates to \<open>int\<close>.  The addition wraps.
\<close>

definition vector_add_int ::
  "c_int list \<Rightarrow> c_int list \<Rightarrow> c_int \<Rightarrow> nat \<Rightarrow> c_int list \<Rightarrow> error + c_int list" where
  "vector_add_int A B offset global_id C =
     (let i = (word_of_nat global_id :: c_int) in
      if in_bounds i A \<and> in_bounds i B \<and> in_bounds i C
      then Inr (C[nat (sint i) := A ! nat (sint i) + B ! nat (sint i)])
      else Inl OutOfBounds)"

text \<open>
  A kernel launch runs one work item per global id.  The work items of the kernels here
  write different elements, so the order does not show in the result; the model runs them
  by increasing id and stops at the first fault.
\<close>

fun run_work_items :: "(nat \<Rightarrow> 's \<Rightarrow> error + 's) \<Rightarrow> nat list \<Rightarrow> 's \<Rightarrow> error + 's" where
  "run_work_items krn [] s = Inr s"
| "run_work_items krn (g # gs) s =
     (case krn g s of Inl e \<Rightarrow> Inl e | Inr s' \<Rightarrow> run_work_items krn gs s')"

text \<open>
  \<open>size_t global_size = size;\<close> converts an \<open>int\<close> to a 64-bit \<open>size_t\<close>, and
  \<open>sizeof(int) * size\<close> is a number of bytes computed in \<open>size_t\<close>; \<open>buffer_ints\<close> is the
  number of whole \<open>int\<close>s in that many bytes.
\<close>

definition size_t_of_int :: "c_int \<Rightarrow> nat" where
  "size_t_of_int x = nat (sint x mod 2 ^ 64)"

definition buffer_ints :: "c_int \<Rightarrow> nat" where
  "buffer_ints n = (4 * size_t_of_int n) mod 2 ^ 64 div 4"

text \<open>
  \<open>clEnqueueWriteBuffer(queue, buf, CL_FALSE, 0, sizeof(int) * size, &host[offset], ...)\<close>
  copies \<open>n\<close> elements of the host array, from \<open>offset\<close> on, to the start of the device
  buffer; \<open>clEnqueueReadBuffer(queue, buf, CL_TRUE, 0, sizeof(int) * size, &host[offset], ...)\<close>
  copies the first \<open>n\<close> elements of the device buffer into the host array at \<open>offset\<close>.
\<close>

definition clEnqueueWriteBuffer :: "'a list \<Rightarrow> nat \<Rightarrow> 'a list \<Rightarrow> c_int \<Rightarrow> error + 'a list" where
  "clEnqueueWriteBuffer buf n host offset =
     (if 0 \<le> sint offset \<and> nat (sint offset) + n \<le> length host \<and> n \<le> length buf
      then Inr (take n (drop (nat (sint offset)) host) @ drop n buf)
      else Inl OutOfBounds)"

definition clEnqueueReadBuffer :: "'a list \<Rightarrow> nat \<Rightarrow> 'a list \<Rightarrow> c_int \<Rightarrow> error + 'a list" where
  "clEnqueueReadBuffer buf n host offset =
     (if 0 \<le> sint offset \<and> nat (sint offset) + n \<le> length host \<and> n \<le> length buf
      then Inr (take (nat (sint offset)) host @ take n buf @ drop (nat (sint offset) + n) host)
      else Inl OutOfBounds)"

text \<open>The three buffers of \<open>struct DeviceContext\<close>; the handles are not modelled.\<close>

record DeviceContext =
  a_buf :: "c_int list"
  b_buf :: "c_int list"
  c_buf :: "c_int list"

text \<open>
  The data part of the first device loop, for the device with chunk \<open>(offset, size)\<close>:
  three buffers of \<open>size\<close> ints are created and the chunks of \<open>A\<close> and \<open>B\<close> are written
  to the first two.  \<open>clCreateBuffer\<close> does not initialise memory: \<open>uninit chunk\<close> is
  whatever the new buffers of that device hold.
\<close>

definition setup_device ::
  "c_int list \<Rightarrow> c_int list \<Rightarrow> (c_int \<times> c_int \<Rightarrow> nat \<Rightarrow> c_int) \<Rightarrow> c_int \<times> c_int
     \<Rightarrow> error + DeviceContext" where
  "setup_device A B uninit chunk =
     (let offset = fst chunk; size = snd chunk;
          fresh = map (uninit chunk) [0..<buffer_ints size]
      in case clEnqueueWriteBuffer fresh (buffer_ints size) A offset of
           Inl e \<Rightarrow> Inl e
         | Inr a \<Rightarrow>
        (case clEnqueueWriteBuffer fresh (buffer_ints size) B offset of
           Inl e \<Rightarrow> Inl e
         | Inr b \<Rightarrow> Inr \<lparr>a_buf = a, b_buf = b, c_buf = fresh\<rparr>))"

text \<open>
  The second device loop: \<open>clEnqueueNDRangeKernel\<close> with \<open>global_size = size\<close>.  The
  kernel's arguments were set in the first loop: the three buffers and \<open>offset\<close>.
\<close>

definition launch_device :: "(c_int \<times> c_int) \<times> DeviceContext \<Rightarrow> error + DeviceContext" where
  "launch_device cd =
     (let offset = fst (fst cd); size = snd (fst cd); dc = snd cd;
          global_size = size_t_of_int size
      in case run_work_items (vector_add_int (a_buf dc) (b_buf dc) offset)
                [0..<global_size] (c_buf dc) of
           Inl e \<Rightarrow> Inl e
         | Inr c \<Rightarrow> Inr (dc\<lparr>c_buf := c\<rparr>))"

text \<open>A loop over the devices that stops at the first fault.\<close>

fun for_each :: "('a \<Rightarrow> error + 'b) \<Rightarrow> 'a list \<Rightarrow> error + 'b list" where
  "for_each f [] = Inr []"
| "for_each f (x # xs) =
     (case f x of
        Inl e \<Rightarrow> Inl e
      | Inr y \<Rightarrow> (case for_each f xs of Inl e \<Rightarrow> Inl e | Inr ys \<Rightarrow> Inr (y # ys)))"

text \<open>The read-back loop: every device's \<open>c_buf\<close> goes to \<open>&C[offset]\<close>.\<close>

fun read_results ::
  "((c_int \<times> c_int) \<times> DeviceContext) list \<Rightarrow> c_int list \<Rightarrow> error + c_int list" where
  "read_results [] C = Inr C"
| "read_results (cd # rest) C =
     (let offset = fst (fst cd); size = snd (fst cd); dc = snd cd
      in case clEnqueueReadBuffer (c_buf dc) (buffer_ints size) C offset of
           Inl e \<Rightarrow> Inl e
         | Inr C' \<Rightarrow> read_results rest C')"

text \<open>
  The data path of \<open>main\<close> in a run whose OpenCL calls all succeed: the chunks, the set-up
  loop, the launch loop and the read-back loop.  \<open>C\<close> is the host array as \<open>malloc\<close>
  returned it.
\<close>

definition main_vector_add ::
  "cl_uint \<Rightarrow> c_int list \<Rightarrow> c_int list \<Rightarrow> c_int list \<Rightarrow> (c_int \<times> c_int \<Rightarrow> nat \<Rightarrow> c_int)
     \<Rightarrow> error + c_int list" where
  "main_vector_add num_devices A B C uninit =
     (case work_distribution num_devices of
        Inl e \<Rightarrow> Inl e
      | Inr chunks \<Rightarrow>
     (case for_each (setup_device A B uninit) chunks of
        Inl e \<Rightarrow> Inl e
      | Inr dev_contexts \<Rightarrow>
     (case for_each launch_device (zip chunks dev_contexts) of
        Inl e \<Rightarrow> Inl e
      | Inr dev_contexts' \<Rightarrow> read_results (zip chunks dev_contexts') C)))"

text \<open>
  The reference the distributed run is compared with: one device that is given the whole
  array as its only chunk, \<open>(0, ARRAY_SIZE)\<close>, and processes it in one launch.
\<close>

definition single_device_vector_add ::
  "c_int list \<Rightarrow> c_int list \<Rightarrow> c_int list \<Rightarrow> (c_int \<times> c_int \<Rightarrow> nat \<Rightarrow> c_int)
     \<Rightarrow> error + c_int list" where
  "single_device_vector_add A B C uninit =
     (case setup_device A B uninit (0, ARRAY_SIZE) of
        Inl e \<Rightarrow> Inl e
      | Inr dc \<Rightarrow>
     (case launch_device ((0, ARRAY_SIZE), dc) of
        Inl e \<Rightarrow> Inl e
      | Inr dc' \<Rightarrow> read_results [((0, ARRAY_SIZE), dc')] C))"

text \<open>
  Used in the proofs: chunks that follow one another from \<open>s\<close> to \<open>e\<close>, and what a device
  holds after its kernel ran.
\<close>

fun contiguous :: "nat \<Rightarrow> (c_int \<times> c_int) list \<Rightarrow> nat \<Rightarrow> bool" where
  "contiguous s [] e = (s = e)"
| "contiguous s (c # cs) e =
     (unat (fst c) = s \<and> s + unat (snd c) \<le> e \<and> contiguous (s + unat (snd c)) cs e)"

definition device_result :: "c_int list \<Rightarrow> c_int list \<Rightarrow> c_int \<times> c_int \<Rightarrow> DeviceContext" where
  "device_result A B c =
     \<lparr>a_buf = take (unat (snd c)) (drop (unat (fst c)) A),
      b_buf = take (unat (snd c)) (drop (unat (fst c)) B),
      c_buf = take (unat (snd c)) (drop (unat (fst c)) (map2 (+) A B))\<rparr>"

subsection \<open>Example 004: verification\<close>

text \<open>
  The loop that decides the verdict:
  \<^verbatim>\<open>bool correct = true;
for (int i = 0; i < 10; i++) {
    int expected = A[i] + B[i];
    if (C[i] != expected) { printf("Error at ..."); correct = false; }
    else { printf("%d + %d = %d\n", A[i], B[i], C[i]); }
}
printf(correct ? "\nVerification PASSED\n" : "\nVerification FAILED\n");\<close>
  \<open>verify_loop\<close> is the loop over the remaining values of \<open>i\<close>, with the current value of
  \<open>correct\<close>; the lines printed inside the loop are left out.
\<close>

fun verify_loop :: "c_int list \<Rightarrow> c_int list \<Rightarrow> c_int list \<Rightarrow> nat list \<Rightarrow> bool \<Rightarrow> bool" where
  "verify_loop A B C [] correct = correct"
| "verify_loop A B C (i # rest) correct =
     (let expected = A ! i + B ! i
      in if C ! i \<noteq> expected then verify_loop A B C rest False
         else verify_loop A B C rest correct)"

definition verification :: "c_int list \<Rightarrow> c_int list \<Rightarrow> c_int list \<Rightarrow> string" where
  "verification A B C =
     (if verify_loop A B C [0..<10] True then ''Verification PASSED''
      else ''Verification FAILED'')"

subsection \<open>Examples 002 and 003: the kernel \<open>vector_add\<close>\<close>

text \<open>
  The arithmetic of \<open>float\<close> is a parameter of every definition that computes with floats:
  the addition, the multiplication and the constant \<open>0.0f\<close>.  Nothing is assumed of them.
\<close>

record 'a float_ops =
  fadd :: "'a \<Rightarrow> 'a \<Rightarrow> 'a"
  fmul :: "'a \<Rightarrow> 'a \<Rightarrow> 'a"
  fzero :: 'a

text \<open>
  The kernel of examples 002 and 003 (\<open>vector_add.cl\<close>, on \<open>float\<close> buffers), run by the
  work item with global id \<open>global_id\<close>:
  \<^verbatim>\<open>__kernel void vector_add(__global const float* a, __global const float* b,
                         __global float* result, const unsigned int n)
{
    int gid = get_global_id(0);
    if (gid < n) {
        result[gid] = a[gid] + b[gid];
    }
}\<close>
  \<open>gid\<close> is the global id truncated to \<open>int\<close>.  In \<open>gid < n\<close> the \<open>int\<close> is converted to
  \<open>unsigned int\<close>, so the comparison is the unsigned one of the two words; as an index
  \<open>gid\<close> is signed.
\<close>

definition vector_add ::
  "'a float_ops \<Rightarrow> 'a list \<Rightarrow> 'a list \<Rightarrow> cl_uint \<Rightarrow> nat \<Rightarrow> 'a list \<Rightarrow> error + 'a list" where
  "vector_add ops a b n global_id result =
     (let gid = (word_of_nat global_id :: c_int) in
      if gid < n then
        (if in_bounds gid a \<and> in_bounds gid b \<and> in_bounds gid result
         then Inr (result[nat (sint gid) := fadd ops (a ! nat (sint gid)) (b ! nat (sint gid))])
         else Inl OutOfBounds)
      else Inr result)"

text \<open>\<open>clEnqueueNDRangeKernel\<close> with one dimension and \<open>global_size\<close> work items.\<close>

definition launch_vector_add ::
  "'a float_ops \<Rightarrow> 'a list \<Rightarrow> 'a list \<Rightarrow> cl_uint \<Rightarrow> nat \<Rightarrow> 'a list \<Rightarrow> error + 'a list" where
  "launch_vector_add ops a b n global_size result =
     run_work_items (vector_add ops a b n) [0..<global_size] result"

subsection \<open>Example 003: breakeven bookkeeping\<close>

text \<open>The vector sizes \<open>main\<close> tests, in the order of the loop.\<close>

definition sizes :: "nat list" where
  "sizes = [1024, 4096, 16384, 65536, 262144, 1048576, 4194304, 16777216, 67108864,
            134217728]"

text \<open>
  The loop over the devices for one test size.  \<open>cpuTime\<close> is what \<open>vectorAddCPU\<close>
  returned for this size and the list holds what \<open>vectorAddOpenCL\<close> returned for the
  devices from \<open>i\<close> on.  Times are measurements and an input; the program only compares
  them.  The state is the pair of vectors \<open>breakevenPoints\<close> and \<open>foundBreakeven\<close>:
  \<^verbatim>\<open>if (!foundBreakeven[i] && openclTime < cpuTime) {
    breakevenPoints[i] = testSize;
    foundBreakeven[i] = true;
}\<close>
\<close>

fun test_devices ::
  "nat \<Rightarrow> 't::linorder \<Rightarrow> 't list \<Rightarrow> nat \<Rightarrow> nat list \<times> bool list \<Rightarrow> nat list \<times> bool list" where
  "test_devices testSize cpuTime [] i st = st"
| "test_devices testSize cpuTime (openclTime # rest) i st =
     (let breakevenPoints = fst st; foundBreakeven = snd st
      in test_devices testSize cpuTime rest (Suc i)
           (if \<not> foundBreakeven ! i \<and> openclTime < cpuTime
            then (breakevenPoints[i := testSize], foundBreakeven[i := True])
            else st))"

text \<open>
  The loop \<open>for (size_t testSize : sizes)\<close>.  Each element is a test size with the CPU
  time and the device times measured for it.
\<close>

fun run_tests ::
  "(nat \<times> 't::linorder \<times> 't list) list \<Rightarrow> nat list \<times> bool list \<Rightarrow> nat list \<times> bool list" where
  "run_tests [] st = st"
| "run_tests (test # rest) st =
     run_tests rest (test_devices (fst test) (fst (snd test)) (snd (snd test)) 0 st)"

text \<open>
  One line of the summary: the breakeven point in elements, or
  \<open>Not reached (OpenCL slower for all tested sizes)\<close>.
\<close>

datatype summary = Elements nat | NotReached

text \<open>
  \<open>main\<close> from the initialisation of the two vectors to the summary, for \<open>n\<close> devices
  and the measurements of the ten test sizes, in a run that reaches the summary.
\<close>

definition breakeven_summary :: "nat \<Rightarrow> ('t::linorder \<times> 't list) list \<Rightarrow> summary list" where
  "breakeven_summary n measurements =
     (let st = run_tests (zip sizes measurements) (replicate n 0, replicate n False);
          breakevenPoints = fst st; foundBreakeven = snd st
      in map (\<lambda>i. if foundBreakeven ! i then Elements (breakevenPoints ! i) else NotReached)
           [0..<n])"

text \<open>Device \<open>i\<close> was faster than the CPU in a measurement \<open>(cpuTime, openclTimes)\<close>.\<close>

definition faster :: "nat \<Rightarrow> 't::linorder \<times> 't list \<Rightarrow> bool" where
  "faster i m = (snd m ! i < fst m)"

subsection \<open>Example 004: the sequence of OpenCL calls\<close>

text \<open>
  The OpenCL calls of \<open>main\<close>, each with the index of the platform or of the device it is
  made for, and the \<open>printf\<close> calls that report a result (timings, the concurrency analysis,
  the verdict).  \<open>clGetPlatformIDs\<close> and \<open>clGetDeviceIDs\<close> are called twice each, once for the
  count and once for the ids.  \<open>get_device_name\<close> is \<open>clGetDeviceInfo\<close> and \<open>get_event_time\<close>
  is \<open>clGetEventProfilingInfo\<close>.
\<close>

datatype id_query = CountQuery | IdsQuery

datatype buffer = BufA | BufB | BufC

datatype profiling_info = CommandStart | CommandEnd

datatype report = Timeline nat | TotalTime | Concurrency nat nat | Verdict

datatype call =
    GetPlatformIDs id_query
  | GetDeviceIDs nat id_query
  | GetDeviceInfo nat
  | CreateContext nat
  | CreateCommandQueue nat
  | CreateProgramWithSource nat
  | BuildProgram nat
  | GetProgramBuildInfo nat
  | CreateKernel nat
  | CreateBuffer nat buffer
  | EnqueueWriteBuffer nat buffer
  | SetKernelArg nat nat
  | EnqueueNDRangeKernel nat
  | WaitForEvents nat
  | GetEventProfilingInfo nat profiling_info
  | EnqueueReadBuffer nat
  | Printf report
  | ReleaseMemObject nat buffer
  | ReleaseKernel nat
  | ReleaseProgram nat
  | ReleaseCommandQueue nat
  | ReleaseContext nat
  | ReleaseEvent nat

text \<open>
  How \<open>main\<close> treats the status of a call, from the first device loop on:
  \<^item> \<open>Call c\<close>: the status is ignored (\<open>clWaitForEvents\<close>, the profiling queries, the
    releases);
  \<^item> \<open>Checked c msg\<close>: the call is followed by \<open>CHECK_ERROR(err, msg)\<close>;
  \<^item> \<open>Build i\<close>: \<open>clBuildProgram\<close>, followed by \<open>if (err != CL_SUCCESS)\<close> that fetches the
    build log with \<open>clGetProgramBuildInfo\<close>, prints it and calls \<open>exit(1)\<close>;
  \<^item> \<open>SetArgs i\<close>: the four \<open>clSetKernelArg\<close> calls, whose statuses are combined with
    \<open>|=\<close> and checked once.
\<close>

datatype step = Call call | Checked call string | Build nat | SetArgs nat

text \<open>
  Running a sequence of steps against a runtime that answers call \<open>c\<close> with status
  \<open>status c\<close>: the calls made, in order, and how the run ended (\<open>None\<close>: it reached the
  end of the sequence).
\<close>

fun exec :: "(call \<Rightarrow> cl_int) \<Rightarrow> step list \<Rightarrow> call list \<times> error option" where
  "exec status [] = ([], None)"
| "exec status (Call c # rest) =
     (let r = exec status rest in (c # fst r, snd r))"
| "exec status (Checked c msg # rest) =
     (case CHECK_ERROR (status c) msg of
        Inl e \<Rightarrow> ([c], Some e)
      | Inr _ \<Rightarrow> (let r = exec status rest in (c # fst r, snd r)))"
| "exec status (Build i # rest) =
     (if status (BuildProgram i) \<noteq> CL_SUCCESS
      then ([BuildProgram i, GetProgramBuildInfo i], Some (Exit 1 (BuildError i)))
      else (let r = exec status rest in (BuildProgram i # fst r, snd r)))"
| "exec status (SetArgs i # rest) =
     (let err = status (SetKernelArg i 0) OR status (SetKernelArg i 1)
                OR status (SetKernelArg i 2) OR status (SetKernelArg i 3);
          calls = [SetKernelArg i 0, SetKernelArg i 1, SetKernelArg i 2, SetKernelArg i 3]
      in case CHECK_ERROR err ''clSetKernelArg'' of
           Inl e \<Rightarrow> (calls, Some e)
         | Inr _ \<Rightarrow> (let r = exec status rest in (calls @ fst r, snd r)))"

text \<open>The body of the first device loop (\<open>Setting up device i\<close>).\<close>

definition setup_steps :: "nat \<Rightarrow> step list" where
  "setup_steps i =
     [Call (GetDeviceInfo i),
      Checked (CreateContext i) ''clCreateContext'',
      Checked (CreateCommandQueue i) ''clCreateCommandQueue'',
      Checked (CreateProgramWithSource i) ''clCreateProgramWithSource'',
      Build i,
      Checked (CreateKernel i) ''clCreateKernel'',
      Checked (CreateBuffer i BufA) ''clCreateBuffer A'',
      Checked (CreateBuffer i BufB) ''clCreateBuffer B'',
      Checked (CreateBuffer i BufC) ''clCreateBuffer C'',
      Checked (EnqueueWriteBuffer i BufA) ''clEnqueueWriteBuffer A'',
      Checked (EnqueueWriteBuffer i BufB) ''clEnqueueWriteBuffer B'',
      SetArgs i]"

text \<open>The bodies of the launch loop, the wait loop and the timeline loop.\<close>

definition launch_steps :: "nat \<Rightarrow> step list" where
  "launch_steps i = [Checked (EnqueueNDRangeKernel i) ''clEnqueueNDRangeKernel'']"

definition wait_steps :: "nat \<Rightarrow> step list" where
  "wait_steps i = [Call (WaitForEvents i)]"

definition timeline_steps :: "nat \<Rightarrow> step list" where
  "timeline_steps i =
     [Call (GetEventProfilingInfo i CommandStart),
      Call (GetEventProfilingInfo i CommandEnd),
      Call (Printf (Timeline i))]"

text \<open>
  The concurrency analysis: for device \<open>i\<close>, the inner loop over \<open>j = i + 1, ..., n - 1\<close>.
\<close>

definition concurrency_steps :: "nat \<Rightarrow> nat \<Rightarrow> step list" where
  "concurrency_steps n i =
     concat (map (\<lambda>j. [Call (GetEventProfilingInfo i CommandStart),
                        Call (GetEventProfilingInfo i CommandEnd),
                        Call (GetEventProfilingInfo j CommandStart),
                        Call (GetEventProfilingInfo j CommandEnd),
                        Call (Printf (Concurrency i j))]) [Suc i..<n])"

text \<open>The bodies of the read-back loop and of the clean-up loop.\<close>

definition read_steps :: "nat \<Rightarrow> step list" where
  "read_steps i = [Checked (EnqueueReadBuffer i) ''clEnqueueReadBuffer'']"

definition cleanup_steps :: "nat \<Rightarrow> step list" where
  "cleanup_steps i =
     [Call (ReleaseMemObject i BufA), Call (ReleaseMemObject i BufB),
      Call (ReleaseMemObject i BufC), Call (ReleaseKernel i), Call (ReleaseProgram i),
      Call (ReleaseCommandQueue i), Call (ReleaseContext i), Call (ReleaseEvent i)]"

text \<open>Each loop runs its body for \<open>i = 0, ..., n - 1\<close>.\<close>

definition for_devices :: "nat \<Rightarrow> (nat \<Rightarrow> step list) \<Rightarrow> step list" where
  "for_devices n body = concat (map body [0..<n])"

text \<open>\<open>main\<close> from the first device loop to the clean-up, for \<open>n\<close> devices.\<close>

definition main_steps :: "nat \<Rightarrow> step list" where
  "main_steps n =
     for_devices n setup_steps
     @ for_devices n launch_steps
     @ for_devices n wait_steps
     @ for_devices n timeline_steps @ [Call (Printf TotalTime)]
     @ for_devices n (concurrency_steps n)
     @ for_devices n read_steps
     @ [Call (Printf Verdict)]
     @ for_devices n cleanup_steps"

text \<open>
  The calls of the discovery loop \<open>for (cl_uint p = 0; p < num_platforms; p++)\<close>, whose
  result is \<open>collect_devices\<close>: the counting call for every platform, the fetching call
  where the counting call succeeded with a count above 0, and nothing after a fetching
  call that failed.  \<open>q\<close> is the index of the first platform of the list.
\<close>

fun discovery_calls :: "platform list \<Rightarrow> nat \<Rightarrow> call list" where
  "discovery_calls [] q = []"
| "discovery_calls (p # ps) q =
     (if count_status p = CL_SUCCESS \<and> num_platform_devices p > 0 then
        (case CHECK_ERROR (ids_status p) ''clGetDeviceIDs'' of
           Inl e \<Rightarrow> [GetDeviceIDs q CountQuery, GetDeviceIDs q IdsQuery]
         | Inr _ \<Rightarrow> GetDeviceIDs q CountQuery # GetDeviceIDs q IdsQuery
                     # discovery_calls ps (Suc q))
      else GetDeviceIDs q CountQuery # discovery_calls ps (Suc q))"

text \<open>
  The whole of \<open>main\<close>: the calls it makes, in order, and how it ends (\<open>None\<close>: it reaches
  \<open>return 0\<close>).  The first part is \<open>main_distribution\<close> with its calls; the devices found
  are numbered from 0 and \<open>main_steps\<close> runs for \<open>num_devices\<close> of them.
\<close>

definition main_004 :: "opencl_env \<Rightarrow> (call \<Rightarrow> cl_int) \<Rightarrow> call list \<times> error option" where
  "main_004 env status =
     (case CHECK_ERROR (platform_count_status env) ''clGetPlatformIDs count'' of
        Inl e \<Rightarrow> ([GetPlatformIDs CountQuery], Some e)
      | Inr _ \<Rightarrow>
     (case CHECK_ERROR (platform_ids_status env) ''clGetPlatformIDs'' of
        Inl e \<Rightarrow> ([GetPlatformIDs CountQuery, GetPlatformIDs IdsQuery], Some e)
      | Inr _ \<Rightarrow>
     (let found = GetPlatformIDs CountQuery # GetPlatformIDs IdsQuery
                  # discovery_calls (platforms env) 0
      in case collect_devices (platforms env) 0 of
           Inl e \<Rightarrow> (found, Some e)
         | Inr num_devices \<Rightarrow>
        (case read_kernel_source ''vector_add.cl'' (kernel_file_opens env) of
           Inl e \<Rightarrow> (found, Some e)
         | Inr _ \<Rightarrow>
        (case chunk_size num_devices of
           Inl e \<Rightarrow> (found, Some e)
         | Inr _ \<Rightarrow>
             (let r = exec status (main_steps (unat num_devices))
              in (found @ fst r, snd r)))))))"

definition main_trace :: "opencl_env \<Rightarrow> (call \<Rightarrow> cl_int) \<Rightarrow> call list" where
  "main_trace env status = fst (main_004 env status)"

text \<open>
  \<open>never_before b a tr\<close>: in the trace \<open>tr\<close>, \<open>b\<close> does not occur before the first \<open>a\<close>
  (so it does not occur at all where \<open>a\<close> does not).
\<close>

definition never_before :: "'a \<Rightarrow> 'a \<Rightarrow> 'a list \<Rightarrow> bool" where
  "never_before b a tr = (b \<notin> set (takeWhile (\<lambda>x. x \<noteq> a) tr))"

text \<open>The calls that release an OpenCL object.\<close>

fun is_release :: "call \<Rightarrow> bool" where
  "is_release (ReleaseMemObject i b) = True"
| "is_release (ReleaseKernel i) = True"
| "is_release (ReleaseProgram i) = True"
| "is_release (ReleaseCommandQueue i) = True"
| "is_release (ReleaseContext i) = True"
| "is_release (ReleaseEvent i) = True"
| "is_release c = False"

text \<open>
  The part of \<open>main\<close> that a call belongs to, numbered in the order of the program text:
  0 the enumeration of platforms and devices, 1 the set-up loop (which, device by device,
  builds the kernel and then allocates and fills the buffers), 2 the launch loop, 3 the
  wait loop, 4 the timing queries and the reports made from them (timeline, total time,
  concurrency analysis), 5 the read-back loop, 6 the verdict, 7 the clean-up loop.
\<close>

fun stage :: "call \<Rightarrow> nat" where
  "stage (GetPlatformIDs k) = 0"
| "stage (GetDeviceIDs q k) = 0"
| "stage (GetDeviceInfo i) = 1"
| "stage (CreateContext i) = 1"
| "stage (CreateCommandQueue i) = 1"
| "stage (CreateProgramWithSource i) = 1"
| "stage (BuildProgram i) = 1"
| "stage (GetProgramBuildInfo i) = 1"
| "stage (CreateKernel i) = 1"
| "stage (CreateBuffer i b) = 1"
| "stage (EnqueueWriteBuffer i b) = 1"
| "stage (SetKernelArg i a) = 1"
| "stage (EnqueueNDRangeKernel i) = 2"
| "stage (WaitForEvents i) = 3"
| "stage (GetEventProfilingInfo i p) = 4"
| "stage (Printf (Timeline i)) = 4"
| "stage (Printf TotalTime) = 4"
| "stage (Printf (Concurrency i j)) = 4"
| "stage (EnqueueReadBuffer i) = 5"
| "stage (Printf Verdict) = 6"
| "stage (ReleaseMemObject i b) = 7"
| "stage (ReleaseKernel i) = 7"
| "stage (ReleaseProgram i) = 7"
| "stage (ReleaseCommandQueue i) = 7"
| "stage (ReleaseContext i) = 7"
| "stage (ReleaseEvent i) = 7"

text \<open>Used in the proofs: the calls of a sequence of steps when no check fails.\<close>

fun step_calls :: "step \<Rightarrow> call list" where
  "step_calls (Call c) = [c]"
| "step_calls (Checked c msg) = [c]"
| "step_calls (Build i) = [BuildProgram i]"
| "step_calls (SetArgs i) =
     [SetKernelArg i 0, SetKernelArg i 1, SetKernelArg i 2, SetKernelArg i 3]"

definition all_calls :: "step list \<Rightarrow> call list" where
  "all_calls steps = concat (map step_calls steps)"

subsection \<open>Error handling: \<open>checkError\<close> and example 000\<close>

text \<open>
  The function \<open>checkError\<close> that examples 001 to 008 share:
  \<^verbatim>\<open>void checkError(cl_int err, const char* operation) {
    if (err != CL_SUCCESS) {
        std::cerr << "Error during " << operation << ": " << err << "\n";
        exit(1);
    }
}\<close>
\<close>

definition checkError :: "cl_int \<Rightarrow> string \<Rightarrow> error + unit" where
  "checkError err operation =
     (if err \<noteq> CL_SUCCESS then Inl (Exit 1 (ErrorDuring operation err)) else Inr ())"

text \<open>
  Example 000 uses neither.  What the runtime answers there: the statuses of the four
  \<open>clGetDeviceInfo\<close> calls for a device; for a platform the statuses of the three
  \<open>clGetPlatformInfo\<close> calls and of the two \<open>clGetDeviceIDs\<close> calls, and its devices; and
  the statuses of the two \<open>clGetPlatformIDs\<close> calls with the platforms.  \<open>numPlatforms\<close>
  and \<open>numDevices\<close> are the lengths of the lists.
\<close>

record device_000 =
  device_name_status :: cl_int
  device_type_status :: cl_int
  device_mem_status :: cl_int
  device_units_status :: cl_int

record platform_000 =
  name_status :: cl_int
  vendor_status :: cl_int
  version_status :: cl_int
  device_count_status :: cl_int
  device_ids_status :: cl_int
  devices :: "device_000 list"

record runtime_000 =
  count_status_000 :: cl_int
  ids_status_000 :: cl_int
  platforms_000 :: "platform_000 list"

text \<open>
  The lines example 000 prints, without the strings and numbers the runtime supplies.
  \<open>Info label ok\<close> is a line that shows \<open><error>\<close> in place of the value when the query
  failed; \<open>Shown label\<close> is a line that is printed only when the query succeeded.
\<close>

datatype line =
    Banner
  | ErrorLine string cl_int
  | NoPlatforms
  | FoundPlatforms nat
  | PlatformLine nat
  | Info string bool
  | Attempting
  | DevicesSkipped cl_int
  | DevicesLine nat
  | CannotRetrieve
  | DeviceLine nat
  | Shown string
  | Complete

text \<open>The body of the loop over the devices of a platform, for device \<open>j\<close>.\<close>

definition enumerate_device :: "nat \<times> device_000 \<Rightarrow> line list" where
  "enumerate_device jd =
     (let j = fst jd; d = snd jd
      in [DeviceLine j, Info ''Name'' (device_name_status d = CL_SUCCESS)]
         @ (if device_type_status d = CL_SUCCESS then [Shown ''Type''] else [])
         @ (if device_mem_status d = CL_SUCCESS then [Shown ''Global Memory''] else [])
         @ (if device_units_status d = CL_SUCCESS then [Shown ''Compute Units''] else []))"

text \<open>
  The body of the loop over the platforms, for platform \<open>i\<close>.  Each of the three
  \<open>continue\<close> statements ends the body: after a failed counting call
  (\<open>Devices: <error ..., skipping>\<close>), when the platform has no device, and after a failed
  fetching call (\<open><cannot retrieve device list>\<close>).
\<close>

definition enumerate_platform :: "nat \<times> platform_000 \<Rightarrow> line list" where
  "enumerate_platform ip =
     (let i = fst ip; p = snd ip
      in [PlatformLine i,
          Info ''Name'' (name_status p = CL_SUCCESS),
          Info ''Vendor'' (vendor_status p = CL_SUCCESS),
          Info ''Version'' (version_status p = CL_SUCCESS),
          Attempting]
         @ (if device_count_status p \<noteq> CL_SUCCESS
            then [DevicesSkipped (device_count_status p)]
            else DevicesLine (length (devices p))
                 # (if devices p = [] then []
                    else if device_ids_status p \<noteq> CL_SUCCESS then [CannotRetrieve]
                    else concat (map enumerate_device
                                   (zip [0..<length (devices p)] (devices p))))))"

text \<open>\<open>main\<close> of example 000: the lines printed and the value returned.\<close>

definition main_000 :: "runtime_000 \<Rightarrow> line list \<times> nat" where
  "main_000 rt =
     (if count_status_000 rt \<noteq> CL_SUCCESS
      then ([Banner, ErrorLine ''Error getting platform count'' (count_status_000 rt)], 1)
      else if platforms_000 rt = []
      then ([Banner, NoPlatforms], 1)
      else if ids_status_000 rt \<noteq> CL_SUCCESS
      then ([Banner, FoundPlatforms (length (platforms_000 rt)),
             ErrorLine ''Error retrieving platforms'' (ids_status_000 rt)], 1)
      else ([Banner, FoundPlatforms (length (platforms_000 rt))]
            @ concat (map enumerate_platform
                        (zip [0..<length (platforms_000 rt)] (platforms_000 rt)))
            @ [Complete], 0))"

subsection \<open>Example 006: the serial matrix product\<close>

text \<open>
  A \<open>for\<close> loop whose body may fault: the body is run for the values of the loop variable
  in order, on the state the previous round left, and the first fault ends the loop.
\<close>

fun for_loop :: "('i \<Rightarrow> 's \<Rightarrow> error + 's) \<Rightarrow> 'i list \<Rightarrow> 's \<Rightarrow> error + 's" where
  "for_loop body [] s = Inr s"
| "for_loop body (i # rest) s =
     (case body i s of Inl e \<Rightarrow> Inl e | Inr s' \<Rightarrow> for_loop body rest s')"

text \<open>
  The values of \<open>i\<close> in \<open>for (int i = 0; i < n; i++)\<close>: the comparison is signed, so there
  are none when \<open>n \<le> 0\<close>, and \<open>i++\<close> does not overflow.
\<close>

definition int_loop :: "c_int \<Rightarrow> c_int list" where
  "int_loop n = map word_of_nat [0..<nat (sint n)]"

text \<open>
  Reading and writing the element at an \<open>int\<close> index, for \<open>std::vector\<close> on the host and
  for a buffer in a kernel alike.  An index outside the array is a fault.
\<close>

definition load :: "'a list \<Rightarrow> c_int \<Rightarrow> error + 'a" where
  "load xs i = (if in_bounds i xs then Inr (xs ! nat (sint i)) else Inl OutOfBounds)"

definition store :: "c_int \<Rightarrow> 'a \<Rightarrow> 'a list \<Rightarrow> error + 'a list" where
  "store i v xs = (if in_bounds i xs then Inr (xs[nat (sint i) := v]) else Inl OutOfBounds)"

text \<open>
  The statement \<open>sum += A[i * N + k] * B[k * K + j];\<close>, which is the body of the innermost
  loop of \<open>matmulSerial\<close> and, with \<open>row\<close>, \<open>col\<close> and \<open>i\<close> for \<open>i\<close>, \<open>j\<close> and \<open>k\<close>, of the loop
  of the kernel \<open>matrix_multiply\<close>.  The index arithmetic is 32-bit and wraps.  \<open>acc\<close> is
  the value of \<open>sum\<close> before the statement.
\<close>

definition multiply_add ::
  "'a float_ops \<Rightarrow> 'a list \<Rightarrow> 'a list \<Rightarrow> c_int \<Rightarrow> c_int \<Rightarrow> c_int \<Rightarrow> c_int \<Rightarrow> c_int \<Rightarrow> 'a
     \<Rightarrow> error + 'a" where
  "multiply_add ops A B N K i j k acc =
     (case load A (i * N + k) of
        Inl e \<Rightarrow> Inl e
      | Inr a \<Rightarrow>
     (case load B (k * K + j) of
        Inl e \<Rightarrow> Inl e
      | Inr b \<Rightarrow> Inr (fadd ops acc (fmul ops a b))))"

text \<open>
  \<open>matmulSerial\<close>, without the clock:
  \<^verbatim>\<open>for (int i = 0; i < M; i++) {
    for (int j = 0; j < K; j++) {
        float sum = 0.0f;
        for (int k = 0; k < N; k++) {
            sum += A[i * N + k] * B[k * K + j];
        }
        C[i * K + j] = sum;
    }
}\<close>
\<close>

definition matmulSerial ::
  "'a float_ops \<Rightarrow> 'a list \<Rightarrow> 'a list \<Rightarrow> 'a list \<Rightarrow> c_int \<Rightarrow> c_int \<Rightarrow> c_int
     \<Rightarrow> error + 'a list" where
  "matmulSerial ops A B C M N K =
     for_loop (\<lambda>i. for_loop (\<lambda>j C.
         case for_loop (multiply_add ops A B N K i j) (int_loop N) (fzero ops) of
           Inl e \<Rightarrow> Inl e
         | Inr acc \<Rightarrow> store (i * K + j) acc C) (int_loop K)) (int_loop M) C"

text \<open>
  The reference: the products \<open>A[i*n+x] * B[x*k+j]\<close> for \<open>x = 0, ..., n - 1\<close>, added from
  left to right to \<open>0.0f\<close>, with indices that are natural numbers.
\<close>

definition dot_product :: "'a float_ops \<Rightarrow> 'a list \<Rightarrow> 'a list \<Rightarrow> nat \<Rightarrow> nat \<Rightarrow> nat \<Rightarrow> nat \<Rightarrow> 'a" where
  "dot_product ops A B n k i j =
     foldl (\<lambda>acc x. fadd ops acc (fmul ops (A ! (i * n + x)) (B ! (x * k + j))))
       (fzero ops) [0..<n]"

text \<open>
  Used in the proofs: an array whose first \<open>p\<close> elements have been set to \<open>f 0, ..., f (p - 1)\<close>,
  and the value of the output element with row-major index \<open>p\<close>.
\<close>

definition filled :: "(nat \<Rightarrow> 'a) \<Rightarrow> nat \<Rightarrow> 'a list \<Rightarrow> 'a list" where
  "filled f p C = map f [0..<p] @ drop p C"

definition cell :: "'a float_ops \<Rightarrow> 'a list \<Rightarrow> 'a list \<Rightarrow> nat \<Rightarrow> nat \<Rightarrow> nat \<Rightarrow> 'a" where
  "cell ops A B n k p = dot_product ops A B n k (p div k) (p mod k)"

subsection \<open>Example 006: the kernels \<open>matrix_multiply\<close> and \<open>matrix_multiply_tiled\<close>\<close>

text \<open>
  The kernel \<open>matrix_multiply\<close>, run by the work item with global id \<open>(row, col)\<close>:
  \<^verbatim>\<open>int row = get_global_id(0);
int col = get_global_id(1);
if (row < M && col < K) {
    float sum = 0.0f;
    for (int i = 0; i < N; i++) {
        sum += A[row * N + i] * B[i * K + col];
    }
    C[row * K + col] = sum;
}\<close>
\<close>

definition matrix_multiply ::
  "'a float_ops \<Rightarrow> 'a list \<Rightarrow> 'a list \<Rightarrow> c_int \<Rightarrow> c_int \<Rightarrow> c_int \<Rightarrow> nat \<times> nat \<Rightarrow> 'a list
     \<Rightarrow> error + 'a list" where
  "matrix_multiply ops A B M N K gid C =
     (let row = (word_of_nat (fst gid) :: c_int); col = (word_of_nat (snd gid) :: c_int)
      in if sint row < sint M \<and> sint col < sint K
         then (case for_loop (multiply_add ops A B N K row col) (int_loop N) (fzero ops) of
                 Inl e \<Rightarrow> Inl e
               | Inr acc \<Rightarrow> store (row * K + col) acc C)
         else Inr C)"

text \<open>\<open>const int TILE_SIZE = 16;\<close> and the division of \<open>int\<close>, which truncates.\<close>

definition TILE_SIZE :: c_int where
  "TILE_SIZE = 16"

definition int_div :: "c_int \<Rightarrow> c_int \<Rightarrow> c_int" where
  "int_div a b = word_of_int (sgn (sint a) * sgn (sint b) * (\<bar>sint a\<bar> div \<bar>sint b\<bar>))"

text \<open>
  The tiled kernel is launched with work-groups of 16 by 16 work items.  The work items of
  a group share \<open>A_tile\<close> and \<open>B_tile\<close> and meet at the two barriers of every round, so the
  model runs a whole group at once.  \<open>local_ids\<close> are the 256 pairs
  \<open>(get_local_id(0), get_local_id(1))\<close>, in the order of the slot
  \<open>localRow * TILE_SIZE + localCol\<close> that each work item fills; \<open>get_global_id wg lid\<close> is the
  pair of what \<open>get_global_id(0)\<close> and \<open>get_global_id(1)\<close> return to the work item \<open>lid\<close> of the
  work-group \<open>wg\<close>.
\<close>

definition local_ids :: "(nat \<times> nat) list" where
  "local_ids = map (\<lambda>p. (p div 16, p mod 16)) [0..<256]"

definition get_global_id :: "nat \<times> nat \<Rightarrow> nat \<times> nat \<Rightarrow> nat \<times> nat" where
  "get_global_id wg lid = (16 * fst wg + fst lid, 16 * snd wg + snd lid)"

text \<open>
  Round \<open>t\<close>, before the first barrier: what the work item \<open>lid\<close> stores in its slot of
  \<open>A_tile\<close> and of \<open>B_tile\<close>.
  \<^verbatim>\<open>int tiledRow = TILE_SIZE * t + localCol;
int tiledCol = TILE_SIZE * t + localRow;
A_tile[localRow * TILE_SIZE + localCol] =
    (globalRow < M && tiledRow < N) ? A[globalRow * N + tiledRow] : 0.0f;
B_tile[localRow * TILE_SIZE + localCol] =
    (tiledCol < N && globalCol < K) ? B[tiledCol * K + globalCol] : 0.0f;\<close>
\<close>

definition load_tiles ::
  "'a float_ops \<Rightarrow> 'a list \<Rightarrow> 'a list \<Rightarrow> c_int \<Rightarrow> c_int \<Rightarrow> c_int \<Rightarrow> nat \<times> nat \<Rightarrow> c_int
     \<Rightarrow> nat \<times> nat \<Rightarrow> error + 'a \<times> 'a" where
  "load_tiles ops A B M N K wg t lid =
     (let globalRow = (word_of_nat (fst (get_global_id wg lid)) :: c_int);
          globalCol = (word_of_nat (snd (get_global_id wg lid)) :: c_int);
          localRow = (word_of_nat (fst lid) :: c_int);
          localCol = (word_of_nat (snd lid) :: c_int);
          tiledRow = TILE_SIZE * t + localCol;
          tiledCol = TILE_SIZE * t + localRow
      in case (if sint globalRow < sint M \<and> sint tiledRow < sint N
               then load A (globalRow * N + tiledRow) else Inr (fzero ops)) of
           Inl e \<Rightarrow> Inl e
         | Inr a \<Rightarrow>
        (case (if sint tiledCol < sint N \<and> sint globalCol < sint K
               then load B (tiledCol * K + globalCol) else Inr (fzero ops)) of
           Inl e \<Rightarrow> Inl e
         | Inr b \<Rightarrow> Inr (a, b)))"

text \<open>
  Between the barriers: the statement
  \<open>sum += A_tile[localRow * TILE_SIZE + k] * B_tile[k * TILE_SIZE + localCol];\<close> and the loop
  \<open>for (int k = 0; k < TILE_SIZE; k++)\<close> around it, for a work item and its \<open>sum\<close>.
\<close>

definition tile_multiply_add ::
  "'a float_ops \<Rightarrow> 'a list \<Rightarrow> 'a list \<Rightarrow> nat \<times> nat \<Rightarrow> c_int \<Rightarrow> 'a \<Rightarrow> error + 'a" where
  "tile_multiply_add ops A_tile B_tile lid k acc =
     (let localRow = (word_of_nat (fst lid) :: c_int);
          localCol = (word_of_nat (snd lid) :: c_int)
      in case load A_tile (localRow * TILE_SIZE + k) of
           Inl e \<Rightarrow> Inl e
         | Inr a \<Rightarrow>
        (case load B_tile (k * TILE_SIZE + localCol) of
           Inl e \<Rightarrow> Inl e
         | Inr b \<Rightarrow> Inr (fadd ops acc (fmul ops a b))))"

definition partial_sum ::
  "'a float_ops \<Rightarrow> 'a list \<Rightarrow> 'a list \<Rightarrow> (nat \<times> nat) \<times> 'a \<Rightarrow> error + 'a" where
  "partial_sum ops A_tile B_tile item =
     for_loop (tile_multiply_add ops A_tile B_tile (fst item)) (int_loop TILE_SIZE) (snd item)"

text \<open>
  One round of the loop over the tiles, for the whole group.  \<open>sums\<close> holds the variable
  \<open>sum\<close> of every work item, in the order of \<open>local_ids\<close>.  After the first barrier the
  tiles hold what the work items stored, each in its slot.
\<close>

definition tile_round ::
  "'a float_ops \<Rightarrow> 'a list \<Rightarrow> 'a list \<Rightarrow> c_int \<Rightarrow> c_int \<Rightarrow> c_int \<Rightarrow> nat \<times> nat \<Rightarrow> c_int
     \<Rightarrow> 'a list \<Rightarrow> error + 'a list" where
  "tile_round ops A B M N K wg t sums =
     (case for_each (load_tiles ops A B M N K wg t) local_ids of
        Inl e \<Rightarrow> Inl e
      | Inr tiles \<Rightarrow>
          for_each (partial_sum ops (map fst tiles) (map snd tiles)) (zip local_ids sums))"

text \<open>
  After the loop:
  \<^verbatim>\<open>if (globalRow < M && globalCol < K) {
    C[globalRow * K + globalCol] = sum;
}\<close>
\<close>

definition store_sum ::
  "c_int \<Rightarrow> c_int \<Rightarrow> nat \<times> nat \<Rightarrow> (nat \<times> nat) \<times> 'a \<Rightarrow> 'a list \<Rightarrow> error + 'a list" where
  "store_sum M K wg item C =
     (let globalRow = (word_of_nat (fst (get_global_id wg (fst item))) :: c_int);
          globalCol = (word_of_nat (snd (get_global_id wg (fst item))) :: c_int)
      in if sint globalRow < sint M \<and> sint globalCol < sint K
         then store (globalRow * K + globalCol) (snd item) C
         else Inr C)"

text \<open>
  The kernel \<open>matrix_multiply_tiled\<close>, run by the work-group \<open>wg\<close>:
  \<open>float sum = 0.0f;\<close> in every work item, \<open>numTiles = (N + TILE_SIZE - 1) / TILE_SIZE\<close>
  rounds, and the stores to \<open>C\<close>.
\<close>

definition matrix_multiply_tiled ::
  "'a float_ops \<Rightarrow> 'a list \<Rightarrow> 'a list \<Rightarrow> c_int \<Rightarrow> c_int \<Rightarrow> c_int \<Rightarrow> nat \<times> nat \<Rightarrow> 'a list
     \<Rightarrow> error + 'a list" where
  "matrix_multiply_tiled ops A B M N K wg C =
     (let numTiles = int_div (N + TILE_SIZE - 1) TILE_SIZE
      in case for_loop (tile_round ops A B M N K wg) (int_loop numTiles)
                (replicate 256 (fzero ops)) of
           Inl e \<Rightarrow> Inl e
         | Inr sums \<Rightarrow> for_loop (store_sum M K wg) (zip local_ids sums) C)"

text \<open>
  What the tiled kernel is compared with: the kernel \<open>matrix_multiply\<close> run by the 256 work
  items that have the global ids of the group.
\<close>

definition matrix_multiply_group ::
  "'a float_ops \<Rightarrow> 'a list \<Rightarrow> 'a list \<Rightarrow> c_int \<Rightarrow> c_int \<Rightarrow> c_int \<Rightarrow> nat \<times> nat \<Rightarrow> 'a list
     \<Rightarrow> error + 'a list" where
  "matrix_multiply_group ops A B M N K wg C =
     for_loop (\<lambda>lid. matrix_multiply ops A B M N K (get_global_id wg lid)) local_ids C"

text \<open>
  Used in the proofs: the element of row \<open>row\<close> of \<open>A\<close>, and of column \<open>col\<close> of \<open>B\<close>, that the
  tiles hold for the position \<open>x\<close> of the sum, which is \<open>0.0f\<close> outside the matrix; and the
  variable \<open>sum\<close> of the work item in slot \<open>p\<close> once the positions below \<open>len\<close> have been
  added.
\<close>

definition tile_a :: "'a float_ops \<Rightarrow> 'a list \<Rightarrow> nat \<Rightarrow> nat \<Rightarrow> nat \<Rightarrow> nat \<Rightarrow> 'a" where
  "tile_a ops A m n row x = (if row < m \<and> x < n then A ! (row * n + x) else fzero ops)"

definition tile_b :: "'a float_ops \<Rightarrow> 'a list \<Rightarrow> nat \<Rightarrow> nat \<Rightarrow> nat \<Rightarrow> nat \<Rightarrow> 'a" where
  "tile_b ops B n k col x = (if x < n \<and> col < k then B ! (x * k + col) else fzero ops)"

definition item_sum ::
  "'a float_ops \<Rightarrow> 'a list \<Rightarrow> 'a list \<Rightarrow> nat \<Rightarrow> nat \<Rightarrow> nat \<Rightarrow> nat \<times> nat \<Rightarrow> nat \<Rightarrow> nat \<Rightarrow> 'a" where
  "item_sum ops A B m n k wg len p =
     foldl (\<lambda>acc x. fadd ops acc
              (fmul ops (tile_a ops A m n (16 * fst wg + p div 16) x)
                        (tile_b ops B n k (16 * snd wg + p mod 16) x)))
       (fzero ops) [0..<len]"

text \<open>
  The values that the variable \<open>sum\<close> of a kernel can hold: \<open>0.0f\<close>, and what \<open>sum += p\<close>
  makes of such a value.
\<close>

inductive accumulated :: "'a float_ops \<Rightarrow> 'a \<Rightarrow> bool" for ops :: "'a float_ops" where
  start: "accumulated ops (fzero ops)"
| add: "accumulated ops s \<Longrightarrow> accumulated ops (fadd ops s p)"

(*DEFS-END*)

section \<open>Example 004: the chunks partition the array\<close>

subsection \<open>From words to natural numbers\<close>

lemma unat_ARRAY_SIZE: "unat ARRAY_SIZE = 16777216"
  by (simp add: ARRAY_SIZE_def)

lemma unat_chunk_size: "unat (ARRAY_SIZE div n) = 16777216 div unat n"
  by (simp add: unat_div unat_ARRAY_SIZE)

lemma offset_bound:
  assumes "i \<le> (n::nat)"
  shows "i * (16777216 div n) \<le> 16777216"
proof -
  have "i * (16777216 div n) \<le> n * (16777216 div n)"
    using assms by (rule mult_le_mono1)
  also have "\<dots> \<le> 16777216" by simp
  finally show ?thesis .
qed

lemma unat_device_index:
  assumes "k < unat (n :: cl_uint)"
  shows "unat (word_of_nat k :: cl_uint) = k"
proof -
  have "unat n < 2 ^ 32" using unsigned_less [of n] by simp
  then have "k < 2 ^ 32" using assms by linarith
  then show ?thesis by (simp add: unat_of_nat)
qed

lemma unat_offset:
  assumes "k < unat (n :: cl_uint)"
  shows "unat (word_of_nat k * (ARRAY_SIZE div n) :: cl_uint) = k * (16777216 div unat n)"
proof -
  have "k * (16777216 div unat n) \<le> 16777216"
    using assms by (intro offset_bound) simp
  then have "k * (16777216 div unat n) < 2 ^ 32" by simp
  then show ?thesis
    using unat_device_index [OF assms] unat_chunk_size [of n]
    by (simp add: unat_word_ariths(2))
qed

lemma last_device_iff:
  assumes "k < unat (n :: cl_uint)"
  shows "(word_of_nat k = n - 1) = (Suc k = unat n)"
proof -
  have n0: "n \<noteq> 0" using assms by auto
  have "unat (n - 1) = unat n - 1" using n0 by (rule unat_minus_one)
  moreover have "(word_of_nat k = n - 1) = (unat (word_of_nat k :: cl_uint) = unat (n - 1))"
    by (simp add: word_unat_eq_iff)
  ultimately show ?thesis using unat_device_index [OF assms] assms by auto
qed

lemma device_chunk_nat:
  assumes "k < unat (n :: cl_uint)"
  shows "unat (fst (device_chunk n (ARRAY_SIZE div n) (word_of_nat k))) = k * (16777216 div unat n)"
    and "unat (snd (device_chunk n (ARRAY_SIZE div n) (word_of_nat k))) =
           (if Suc k = unat n then 16777216 - k * (16777216 div unat n) else 16777216 div unat n)"
proof -
  show "unat (fst (device_chunk n (ARRAY_SIZE div n) (word_of_nat k))) = k * (16777216 div unat n)"
    using unat_offset [OF assms] by (simp add: device_chunk_def Let_def)
  have le: "k * (16777216 div unat n) \<le> 16777216"
    using assms by (intro offset_bound) simp
  have "word_of_nat k * (ARRAY_SIZE div n) \<le> ARRAY_SIZE"
    using le unat_offset [OF assms] by (simp add: word_le_nat_alt unat_ARRAY_SIZE)
  then have "unat (ARRAY_SIZE - word_of_nat k * (ARRAY_SIZE div n))
               = 16777216 - k * (16777216 div unat n)"
    using unat_offset [OF assms] by (simp add: unat_sub unat_ARRAY_SIZE)
  then show "unat (snd (device_chunk n (ARRAY_SIZE div n) (word_of_nat k))) =
           (if Suc k = unat n then 16777216 - k * (16777216 div unat n) else 16777216 div unat n)"
    using last_device_iff [OF assms] unat_chunk_size [of n]
    by (simp add: device_chunk_def Let_def)
qed

subsection \<open>The partition in unbounded arithmetic\<close>

lemma sum_sizes_aux:
  "m \<le> n \<Longrightarrow> sum_list (map (\<lambda>k. if Suc k = Suc n then g k else (c::nat)) [0..<m]) = m * c"
  by (induction m) auto

lemma sum_sizes:
  assumes "0 < n"
  shows "sum_list (map (chunk_nat_size n) [0..<n]) = 16777216"
proof -
  obtain m where n: "n = Suc m" using assms by (cases n) auto
  have le: "m * (16777216 div n) \<le> 16777216" by (rule offset_bound) (simp add: n)
  have "sum_list (map (chunk_nat_size n) [0..<m]) = m * (16777216 div n)"
    unfolding chunk_nat_size_def n by (rule sum_sizes_aux) simp
  then show ?thesis using le by (simp add: n chunk_nat_size_def)
qed

lemma ranges_disjoint:
  assumes "k < l" "l < n"
  shows "{k * (16777216 div n) ..< k * (16777216 div n) + chunk_nat_size n k}
       \<inter> {l * (16777216 div n) ..< l * (16777216 div n) + chunk_nat_size n l} = {}"
proof -
  have "Suc k \<noteq> n" using assms by simp
  then have "k * (16777216 div n) + chunk_nat_size n k = Suc k * (16777216 div n)"
    by (simp add: chunk_nat_size_def)
  also have "\<dots> \<le> l * (16777216 div n)"
    using assms by (intro mult_le_mono1) simp
  finally show ?thesis by auto
qed

lemma range_upper:
  assumes "k < n"
  shows "k * (16777216 div n) + chunk_nat_size n k \<le> 16777216"
proof (cases "Suc k = n")
  case True
  have "k * (16777216 div n) \<le> 16777216" using assms by (intro offset_bound) simp
  then show ?thesis using True by (simp add: chunk_nat_size_def)
next
  case False
  then have "Suc k \<le> n" using assms by simp
  then have "Suc k * (16777216 div n) \<le> 16777216" by (rule offset_bound)
  then show ?thesis using False by (simp add: chunk_nat_size_def)
qed

lemma ranges_cover:
  assumes "0 < n" "x < 16777216"
  shows "\<exists>k<n. x \<in> {k * (16777216 div n) ..< k * (16777216 div n) + chunk_nat_size n k}"
proof (cases "x < (n - 1) * (16777216 div n)")
  case True
  let ?c = "16777216 div n"
  have c: "0 < ?c" using True by (cases "?c = 0") auto
  let ?k = "x div ?c"
  have k: "?k < n - 1" using True c by (simp add: div_less_iff_less_mult)
  then have "Suc ?k \<noteq> n" by simp
  then have sz: "chunk_nat_size n ?k = ?c" by (simp add: chunk_nat_size_def)
  have "?k * ?c \<le> x" by simp
  moreover have "x < ?k * ?c + ?c" using c
    by (metis add.commute dividend_less_div_times)
  ultimately show ?thesis using k sz by (intro exI [of _ ?k]) auto
next
  case False
  have le: "(n - 1) * (16777216 div n) \<le> 16777216" by (rule offset_bound) simp
  have "Suc (n - 1) = n" using assms by simp
  then have "chunk_nat_size n (n - 1) = 16777216 - (n - 1) * (16777216 div n)"
    by (simp add: chunk_nat_size_def)
  then show ?thesis using False le assms by (intro exI [of _ "n - 1"]) auto
qed

subsection \<open>The chunks of the program\<close>

lemma work_distribution_chunks:
  assumes "num_devices \<noteq> 0"
  shows "work_distribution num_devices =
           Inr (map (device_chunk num_devices (ARRAY_SIZE div num_devices)) (device_loop num_devices))"
  using assms by (simp add: work_distribution_def chunk_size_def)

lemma chunk_nth:
  assumes "k < unat num_devices"
  shows "map (device_chunk num_devices cs) (device_loop num_devices) ! k =
           device_chunk num_devices cs (word_of_nat k)"
  using assms by (simp add: device_loop_def)

lemma chunk_range_nat:
  assumes "k < unat n"
  shows "chunk_range (device_chunk n (ARRAY_SIZE div n) (word_of_nat k)) =
           {k * (16777216 div unat n) ..< k * (16777216 div unat n) + chunk_nat_size (unat n) k}"
  using device_chunk_nat [OF assms] by (simp add: chunk_range_def chunk_nat_size_def)

lemma chunk_sizes_nat:
  "map (\<lambda>c. unat (snd c)) (map (device_chunk n (ARRAY_SIZE div n)) (device_loop n)) =
     map (chunk_nat_size (unat n)) [0..<unat n]"
  using device_chunk_nat(2) by (simp add: device_loop_def chunk_nat_size_def)

lemma word_ge_1_iff: "(1 \<le> (n :: cl_uint)) = (n \<noteq> 0)"
  by (simp add: word_le_nat_alt unat_gt_0 Suc_le_eq)

text \<open>
  C1.  For every device count of at least one, the program's chunks are: device \<open>i\<close> at
  offset \<open>i * (16777216 div n)\<close>, of size \<open>16777216 div n\<close>, the last device taking the
  rest.  These chunks are pairwise disjoint index ranges, their sizes add up to
  \<open>ARRAY_SIZE = 16777216\<close>, and together they are exactly the indices \<open>0 ..< 16777216\<close>.
  The statement is about the 32-bit values the program computes: no product or difference
  wraps.
\<close>

theorem chunks_partition_array:
  assumes "1 \<le> num_devices"
  shows "\<exists>chunks. work_distribution num_devices = Inr chunks
           \<and> length chunks = unat num_devices
           \<and> (\<forall>i<length chunks.
                 unat (fst (chunks ! i)) = i * (16777216 div unat num_devices)
               \<and> unat (snd (chunks ! i)) =
                   (if Suc i = unat num_devices
                    then 16777216 - i * (16777216 div unat num_devices)
                    else 16777216 div unat num_devices))
           \<and> (\<forall>i<length chunks. \<forall>j<length chunks. i \<noteq> j \<longrightarrow>
                 chunk_range (chunks ! i) \<inter> chunk_range (chunks ! j) = {})
           \<and> sum_list (map (\<lambda>c. unat (snd c)) chunks) = 16777216
           \<and> \<Union> (chunk_range ` set chunks) = {0..<16777216}"
proof -
  let ?n = "unat num_devices"
  let ?cs = "ARRAY_SIZE div num_devices"
  let ?chunks = "map (device_chunk num_devices ?cs) (device_loop num_devices)"
  have n0: "num_devices \<noteq> 0" using assms by (simp add: word_ge_1_iff)
  then have pos: "0 < ?n" by (simp add: unat_gt_0)
  have len: "length ?chunks = ?n" by (simp add: device_loop_def)
  have nth: "?chunks ! k = device_chunk num_devices ?cs (word_of_nat k)" if "k < ?n" for k
    using that by (rule chunk_nth)
  have shape: "\<forall>i<length ?chunks.
                 unat (fst (?chunks ! i)) = i * (16777216 div ?n)
               \<and> unat (snd (?chunks ! i)) =
                   (if Suc i = ?n then 16777216 - i * (16777216 div ?n) else 16777216 div ?n)"
    using device_chunk_nat nth len by simp
  have rng: "chunk_range (?chunks ! k) =
               {k * (16777216 div ?n) ..< k * (16777216 div ?n) + chunk_nat_size ?n k}"
    if "k < ?n" for k
    using that nth chunk_range_nat by simp
  have disj: "chunk_range (?chunks ! i) \<inter> chunk_range (?chunks ! j) = {}"
    if "i < ?n" "j < ?n" "i \<noteq> j" for i j
  proof (cases "i < j")
    case True
    then show ?thesis using that rng ranges_disjoint [of i j ?n] by simp
  next
    case False
    then have "j < i" using that by simp
    then show ?thesis using that rng ranges_disjoint [of j i ?n] by (simp add: Int_commute)
  qed
  have total: "sum_list (map (\<lambda>c. unat (snd c)) ?chunks) = 16777216"
    using sum_sizes [OF pos] by (simp only: chunk_sizes_nat)
  have cover: "\<Union> (chunk_range ` set ?chunks) = {0..<16777216}"
  proof (rule set_eqI, rule iffI)
    fix x assume "x \<in> \<Union> (chunk_range ` set ?chunks)"
    then obtain c where c: "c \<in> set ?chunks" and xc: "x \<in> chunk_range c" by blast
    from c obtain k where "k < length ?chunks" and "?chunks ! k = c"
      unfolding in_set_conv_nth by blast
    then have k: "k < ?n" and x: "x \<in> chunk_range (?chunks ! k)"
      using len xc by simp_all
    then show "x \<in> {0..<16777216}"
      using rng [OF k] range_upper [OF k] by auto
  next
    fix x :: nat assume "x \<in> {0..<16777216}"
    then obtain k where k: "k < ?n"
      and x: "x \<in> {k * (16777216 div ?n) ..< k * (16777216 div ?n) + chunk_nat_size ?n k}"
      using ranges_cover [OF pos, of x] by auto
    have "?chunks ! k \<in> set ?chunks" using k len by (simp only: nth_mem)
    then show "x \<in> \<Union> (chunk_range ` set ?chunks)"
      using x rng [OF k] by blast
  qed
  have disj': "\<forall>i<length ?chunks. \<forall>j<length ?chunks. i \<noteq> j \<longrightarrow>
                 chunk_range (?chunks ! i) \<inter> chunk_range (?chunks ! j) = {}"
    using disj len by simp
  have dist: "work_distribution num_devices = Inr ?chunks"
    using n0 by (rule work_distribution_chunks)
  show ?thesis
    by (intro exI [of _ ?chunks] conjI) (fact dist len shape disj' total cover)+
qed

text \<open>
  With three devices, the configuration the README reports, the chunks are
  \<open>5592405, 5592405, 5592406\<close> elements long.
\<close>

theorem chunks_partition_array_witness:
  "(1::cl_uint) \<le> 3
   \<and> work_distribution 3 = Inr [(0, 5592405), (5592405, 5592405), (11184810, 5592406)]
   \<and> chunk_range (0, 5592405) \<inter> chunk_range (5592405, 5592405) = {}
   \<and> chunk_range (0, 5592405) \<union> chunk_range (5592405, 5592405)
        \<union> chunk_range (11184810, 5592406) = {0..<16777216}"
proof -
  have h: "(1::cl_uint) \<le> 3" by simp
  have w: "work_distribution 3 = Inr [(0, 5592405), (5592405, 5592405), (11184810, 5592406)]"
    by code_simp
  from chunks_partition_array [OF h] w
  have d: "\<forall>i<3. \<forall>j<3. i \<noteq> j \<longrightarrow>
             chunk_range ([(0, 5592405), (5592405, 5592405), (11184810, 5592406)] ! i)
           \<inter> chunk_range ([(0, 5592405), (5592405, 5592405), (11184810, 5592406)] ! j) = {}"
    and u: "\<Union> (chunk_range ` set [(0, 5592405), (5592405, 5592405), (11184810, 5592406)])
             = {0..<16777216}"
    by auto
  from d have "chunk_range (0, 5592405) \<inter> chunk_range (5592405, 5592405) = {}"
    by (metis One_nat_def nth_Cons_0 nth_Cons_Suc numeral_3_eq_3 zero_less_Suc zero_neq_one
        Suc_less_eq)
  moreover from u have "chunk_range (0, 5592405) \<union> chunk_range (5592405, 5592405)
        \<union> chunk_range (11184810, 5592406) = {0..<16777216}"
    by (simp add: Un_assoc)
  ultimately show ?thesis using h w by simp
qed

section \<open>Example 004: the division is not guarded\<close>

lemma collect_devices_none:
  assumes "list_all (\<lambda>p. count_status p \<noteq> CL_SUCCESS \<or> num_platform_devices p = 0) ps"
  shows "collect_devices ps acc = Inr acc"
  using assms by (induction ps arbitrary: acc) (auto simp: word_greater_zero_iff)

text \<open>
  C8.  Nothing stands between the device count and the division.  When discovery ends
  with zero devices (and the calls before the division succeed, the kernel file being
  there), \<open>main\<close> reaches \<open>ARRAY_SIZE / 0\<close>.  Discovery does end with zero devices whenever
  every platform fails its counting call or reports no device.  The chunk size, and with
  it the chunks, is defined exactly when there is at least one device.
\<close>

theorem chunk_size_unguarded:
  "(platform_count_status env = CL_SUCCESS \<and> platform_ids_status env = CL_SUCCESS
      \<and> collect_devices (platforms env) 0 = Inr 0 \<and> kernel_file_opens env
      \<longrightarrow> main_distribution env = Inl DivisionByZero)
   \<and> (list_all (\<lambda>p. count_status p \<noteq> CL_SUCCESS \<or> num_platform_devices p = 0) ps
      \<longrightarrow> collect_devices ps 0 = Inr 0)
   \<and> chunk_size 0 = Inl DivisionByZero
   \<and> ((\<exists>cs. chunk_size num_devices = Inr cs) \<longleftrightarrow> 1 \<le> num_devices)
   \<and> ((\<exists>chunks. work_distribution num_devices = Inr chunks) \<longleftrightarrow> 1 \<le> num_devices)"
proof -
  have a: "main_distribution env = Inl DivisionByZero"
    if "platform_count_status env = CL_SUCCESS" "platform_ids_status env = CL_SUCCESS"
       "collect_devices (platforms env) 0 = Inr 0" "kernel_file_opens env"
    using that
    by (simp add: main_distribution_def CHECK_ERROR_def read_kernel_source_def
        work_distribution_def chunk_size_def)
  have b: "collect_devices ps 0 = Inr 0"
    if "list_all (\<lambda>p. count_status p \<noteq> CL_SUCCESS \<or> num_platform_devices p = 0) ps"
    using that by (rule collect_devices_none)
  have c: "(\<exists>cs. chunk_size num_devices = Inr cs) \<longleftrightarrow> 1 \<le> num_devices"
    unfolding word_ge_1_iff by (simp add: chunk_size_def)
  have d: "(\<exists>chunks. work_distribution num_devices = Inr chunks) \<longleftrightarrow> 1 \<le> num_devices"
    unfolding word_ge_1_iff by (simp add: work_distribution_def chunk_size_def)
  show ?thesis using a b c d by (simp add: chunk_size_def)
qed

text \<open>
  One platform whose counting call returns \<open>CL_DEVICE_NOT_FOUND\<close> (\<open>-1\<close>): the platform is
  passed over, no device is found and \<open>main\<close> divides by zero.
\<close>

theorem chunk_size_unguarded_witness:
  "main_distribution \<lparr>platform_count_status = 0, platform_ids_status = 0,
       platforms = [\<lparr>count_status = -1, num_platform_devices = 0, ids_status = 0\<rparr>],
       kernel_file_opens = True\<rparr> = Inl DivisionByZero
   \<and> chunk_size 0 = Inl DivisionByZero"
  using chunk_size_unguarded [of "\<lparr>platform_count_status = 0, platform_ids_status = 0,
       platforms = [\<lparr>count_status = -1, num_platform_devices = 0, ids_status = 0\<rparr>],
       kernel_file_opens = True\<rparr>" "[]" 0]
  by (simp add: CL_SUCCESS_def)

section \<open>Example 004: the distributed sum is the sum\<close>

subsection \<open>Small signed values\<close>


lemma sint_small:
  assumes "unat (w :: c_int) < 2147483648"
  shows "sint w = uint w"
proof -
  have s: "sint w = (uint w + 2147483648) mod 4294967296 - 2147483648"
    using int_word_sint [where 'a = 32, of "uint w"] by simp
  have "int (unat w) < 2147483648" using assms by linarith
  then have "uint w < 2147483648" by simp
  then have "(uint w + 2147483648) mod 4294967296 = uint w + 2147483648"
    by (intro mod_pos_pos_trivial) simp_all
  then show ?thesis using s by simp
qed

lemma nat_sint_small:
  assumes "unat (w :: c_int) < 2147483648"
  shows "0 \<le> sint w" and "nat (sint w) = unat w"
  using sint_small [OF assms] by simp_all

lemma sint_of_nat_small:
  assumes "g < 2147483648"
  shows "0 \<le> sint (word_of_nat g :: c_int)" and "nat (sint (word_of_nat g :: c_int)) = g"
proof -
  have "unat (word_of_nat g :: c_int) = g" using assms by (simp add: unat_of_nat)
  then show "0 \<le> sint (word_of_nat g :: c_int)" and "nat (sint (word_of_nat g :: c_int)) = g"
    using nat_sint_small [of "word_of_nat g"] assms by simp_all
qed

lemma size_t_of_int_small:
  assumes "unat (w :: c_int) < 2147483648"
  shows "size_t_of_int w = unat w"
proof -
  have "uint w < 2147483648" using assms sint_small [OF assms] nat_sint_small [OF assms] by linarith
  then have "uint w mod 18446744073709551616 = uint w"
    by (intro mod_pos_pos_trivial) simp_all
  then show ?thesis using sint_small [OF assms] by (simp add: size_t_of_int_def)
qed

lemma buffer_ints_small:
  assumes "unat (w :: c_int) < 2147483648"
  shows "buffer_ints w = unat w"
proof -
  have "4 * unat w < 18446744073709551616" using assms by linarith
  then show ?thesis using size_t_of_int_small [OF assms] by (simp add: buffer_ints_def)
qed

lemma vector_add_int_step:
  assumes "g < length A" "g < length B" "g < length C" "g < 2147483648"
  shows "vector_add_int A B offset g C = Inr (C[g := A ! g + B ! g])"
  using assms sint_of_nat_small [OF assms(4)]
  by (simp add: vector_add_int_def in_bounds_def Let_def)

subsection \<open>One kernel launch\<close>

lemma run_work_items_append:
  "run_work_items krn (xs @ ys) s =
     (case run_work_items krn xs s of Inl e \<Rightarrow> Inl e | Inr s' \<Rightarrow> run_work_items krn ys s')"
  by (induction xs arbitrary: s) (auto split: sum.splits)

lemma vector_add_result_step:
  assumes "g < length A" "g < length B" "g < length C"
  shows "(map2 (+) (take g A) (take g B) @ drop g C)[g := A ! g + B ! g]
           = map2 (+) (take (Suc g) A) (take (Suc g) B) @ drop (Suc g) (C :: c_int list)"
proof -
  have len: "length (map2 (+) (take g A) (take g B)) = g" using assms by simp
  have d: "drop g C = C ! g # drop (Suc g) C"
    using assms by (simp add: Cons_nth_drop_Suc)
  have "(map2 (+) (take g A) (take g B) @ drop g C)[g := A ! g + B ! g]
          = map2 (+) (take g A) (take g B) @ (drop g C)[0 := A ! g + B ! g]"
    using len by (simp add: list_update_append)
  also have "\<dots> = map2 (+) (take g A) (take g B) @ (A ! g + B ! g) # drop (Suc g) C"
    by (subst d) simp
  also have "\<dots> = map2 (+) (take (Suc g) A) (take (Suc g) B) @ drop (Suc g) C"
    using assms by (simp add: take_Suc_conv_app_nth)
  finally show ?thesis .
qed

lemma run_vector_add_int:
  assumes "g \<le> length A" "g \<le> length B" "g \<le> length C" "g \<le> 2147483648"
  shows "run_work_items (vector_add_int A B offset) [0..<g] C
           = Inr (map2 (+) (take g A) (take g B) @ drop g C)"
  using assms
proof (induction g)
  case 0
  then show ?case by simp
next
  case (Suc g)
  have len: "g < length (map2 (+) (take g A) (take g B) @ drop g C)"
    using Suc.prems by simp
  have "vector_add_int A B offset g (map2 (+) (take g A) (take g B) @ drop g C)
          = Inr ((map2 (+) (take g A) (take g B) @ drop g C)[g := A ! g + B ! g])"
    using Suc.prems len by (intro vector_add_int_step) simp_all
  then show ?case
    using Suc vector_add_result_step [of g A B C]
    by (simp add: run_work_items_append)
qed


subsection \<open>One device\<close>

lemma for_each_map:
  assumes "\<And>x. x \<in> set xs \<Longrightarrow> f x = Inr (g x)"
  shows "for_each f xs = Inr (map g xs)"
  using assms by (induction xs) simp_all

lemma chunk_words:
  fixes c :: "c_int \<times> c_int"
  assumes "unat (fst c) + unat (snd c) \<le> 16777216"
  shows "nat (sint (fst c)) = unat (fst c)" "0 \<le> sint (fst c)"
    "buffer_ints (snd c) = unat (snd c)" "size_t_of_int (snd c) = unat (snd c)"
proof -
  have o: "unat (fst c) < 2147483648" and s: "unat (snd c) < 2147483648"
    using assms by linarith+
  show "nat (sint (fst c)) = unat (fst c)" "0 \<le> sint (fst c)"
    using nat_sint_small [OF o] by simp_all
  show "buffer_ints (snd c) = unat (snd c)" using s by (rule buffer_ints_small)
  show "size_t_of_int (snd c) = unat (snd c)" using s by (rule size_t_of_int_small)
qed

lemma setup_device_ok:
  assumes "length A = 16777216" "length B = 16777216"
    and "unat (fst c) + unat (snd c) \<le> 16777216"
  shows "setup_device A B uninit c =
           Inr \<lparr>a_buf = take (unat (snd c)) (drop (unat (fst c)) A),
                b_buf = take (unat (snd c)) (drop (unat (fst c)) B),
                c_buf = map (uninit c) [0..<unat (snd c)]\<rparr>"
  using assms chunk_words [OF assms(3)]
  by (simp add: setup_device_def clEnqueueWriteBuffer_def Let_def)

lemma launch_device_ok:
  assumes "length A = 16777216" "length B = 16777216"
    and "unat (fst c) + unat (snd c) \<le> 16777216"
  shows "launch_device (c, \<lparr>a_buf = take (unat (snd c)) (drop (unat (fst c)) A),
                b_buf = take (unat (snd c)) (drop (unat (fst c)) B),
                c_buf = map (uninit c) [0..<unat (snd c)]\<rparr>) = Inr (device_result A B c)"
proof -
  let ?s = "unat (snd c)" and ?o = "unat (fst c)"
  let ?a = "take ?s (drop ?o A)" and ?b = "take ?s (drop ?o B)"
  let ?c0 = "map (uninit c) [0..<?s]"
  have la: "length ?a = ?s" and lb: "length ?b = ?s" and lc: "length ?c0 = ?s"
    using assms by simp_all
  have s: "?s \<le> 2147483648" using assms(3) by linarith
  have "run_work_items (vector_add_int ?a ?b (fst c)) [0..<?s] ?c0
          = Inr (map2 (+) (take ?s ?a) (take ?s ?b) @ drop ?s ?c0)"
    using la lb lc s by (intro run_vector_add_int) simp_all
  also have "map2 (+) (take ?s ?a) (take ?s ?b) @ drop ?s ?c0 = map2 (+) ?a ?b"
    by simp
  also have "map2 (+) ?a ?b = take ?s (drop ?o (map2 (+) A B))"
    by (simp add: take_map drop_map take_zip drop_zip)
  finally show ?thesis
    using chunk_words [OF assms(3)]
    by (simp add: launch_device_def device_result_def Let_def)
qed

lemma read_device_ok:
  assumes "length A = 16777216" "length B = 16777216" "length C = 16777216"
    and "unat (fst c) + unat (snd c) \<le> 16777216"
  shows "clEnqueueReadBuffer (c_buf (device_result A B c)) (buffer_ints (snd c)) C (fst c)
           = Inr (take (unat (fst c)) C
                  @ take (unat (snd c)) (drop (unat (fst c)) (map2 (+) A B))
                  @ drop (unat (fst c) + unat (snd c)) C)"
  using assms chunk_words [OF assms(4)]
  by (simp add: clEnqueueReadBuffer_def device_result_def)

subsection \<open>All devices\<close>

lemma read_results_contiguous:
  assumes "length A = 16777216" "length B = 16777216" "length C = 16777216"
    and "contiguous s cs e" "e \<le> 16777216"
  shows "read_results (map (\<lambda>c. (c, device_result A B c)) cs)
            (take s (map2 (+) A B) @ drop s C)
           = Inr (take e (map2 (+) A B) @ drop e C)"
  using assms(4)
proof (induction cs arbitrary: s)
  case Nil
  then show ?case by simp
next
  case (Cons c cs)
  let ?Z = "map2 (+) A B"
  let ?C = "take s ?Z @ drop s C"
  let ?n = "unat (snd c)"
  from Cons.prems have o: "unat (fst c) = s" and le: "s + ?n \<le> e"
    and rest: "contiguous (s + ?n) cs e" by simp_all
  have good: "unat (fst c) + unat (snd c) \<le> 16777216" using o le assms(5) by simp
  have lenZ: "length ?Z = 16777216" using assms by simp
  have lenC: "length ?C = 16777216" using assms lenZ good o by simp
  have "clEnqueueReadBuffer (c_buf (device_result A B c)) (buffer_ints (snd c)) ?C (fst c)
          = Inr (take s ?C @ take ?n (drop s ?Z) @ drop (s + ?n) ?C)"
    using read_device_ok [OF assms(1,2) lenC good] o by simp
  also have "take s ?C = take s ?Z" using lenZ good o by simp
  also have "drop (s + ?n) ?C = drop (s + ?n) C" using lenZ good o by (simp add: add.commute)
  also have "take s ?Z @ take ?n (drop s ?Z) @ drop (s + ?n) C
               = take (s + ?n) ?Z @ drop (s + ?n) C"
    by (simp add: take_add)
  finally have "clEnqueueReadBuffer (c_buf (device_result A B c)) (buffer_ints (snd c)) ?C (fst c)
          = Inr (take (s + ?n) ?Z @ drop (s + ?n) C)" .
  then show ?case using Cons.IH [OF rest] by (simp add: Let_def)
qed

lemma contiguous_suffix:
  assumes "k < unat (n :: cl_uint)"
  shows "contiguous (k * (16777216 div unat n))
           (map (device_chunk n (ARRAY_SIZE div n)) (map word_of_nat [k..<unat n])) 16777216"
  using assms
proof (induction k rule: strict_inc_induct)
  case (base k)
  let ?c = "device_chunk n (ARRAY_SIZE div n) (word_of_nat k)"
  from base have k: "k < unat n" and last: "unat n = Suc k" by simp_all
  have "[k..<unat n] = [k]" unfolding last by simp
  then have l: "map (device_chunk n (ARRAY_SIZE div n)) (map word_of_nat [k..<unat n]) = [?c]"
    by simp
  have "k * (16777216 div unat n) \<le> 16777216" using k by (intro offset_bound) simp
  moreover have "unat (fst ?c) = k * (16777216 div unat n)"
    and "unat (snd ?c) = 16777216 - k * (16777216 div unat n)"
    using device_chunk_nat [OF k] last by simp_all
  ultimately show ?case unfolding l by simp
next
  case (step k)
  let ?c = "device_chunk n (ARRAY_SIZE div n) (word_of_nat k)"
  from step have k: "k < unat n" and notlast: "Suc k \<noteq> unat n" by simp_all
  have "[k..<unat n] = k # [Suc k..<unat n]" using k by (simp add: upt_conv_Cons)
  then have l: "map (device_chunk n (ARRAY_SIZE div n)) (map word_of_nat [k..<unat n])
      = ?c # map (device_chunk n (ARRAY_SIZE div n)) (map word_of_nat [Suc k..<unat n])"
    by simp
  have le: "Suc k * (16777216 div unat n) \<le> 16777216"
    using step by (intro offset_bound) simp
  have c: "unat (fst ?c) = k * (16777216 div unat n)" "unat (snd ?c) = 16777216 div unat n"
    using device_chunk_nat [OF k] notlast by simp_all
  have e: "k * (16777216 div unat n) + 16777216 div unat n = Suc k * (16777216 div unat n)"
    by simp
  show ?case unfolding l contiguous.simps c e using le step.IH by simp
qed


lemma zip_map_self: "zip xs (map f xs) = map (\<lambda>x. (x, f x)) xs"
  by (induction xs) simp_all

lemma chunks_in_array:
  assumes "c \<in> set (map (device_chunk n (ARRAY_SIZE div n)) (device_loop n))"
  shows "unat (fst c) + unat (snd c) \<le> 16777216"
proof -
  from assms obtain k where k: "k < unat n"
    and c: "c = device_chunk n (ARRAY_SIZE div n) (word_of_nat k)"
    by (auto simp: device_loop_def)
  show ?thesis
    using device_chunk_nat [OF k] range_upper [OF k] unfolding c chunk_nat_size_def by simp
qed

lemma run_chunks:
  assumes "length A = 16777216" "length B = 16777216" "length C = 16777216"
    and "\<And>c. c \<in> set chunks \<Longrightarrow> unat (fst c) + unat (snd c) \<le> 16777216"
    and "contiguous 0 chunks 16777216"
  shows "(case for_each (setup_device A B uninit) chunks of
        Inl e \<Rightarrow> Inl e
      | Inr dev_contexts \<Rightarrow>
     (case for_each launch_device (zip chunks dev_contexts) of
        Inl e \<Rightarrow> Inl e
      | Inr dev_contexts' \<Rightarrow> read_results (zip chunks dev_contexts') C)) = Inr (map2 (+) A B)"
proof -
  let ?ready = "\<lambda>c. \<lparr>a_buf = take (unat (snd c)) (drop (unat (fst c)) A),
                b_buf = take (unat (snd c)) (drop (unat (fst c)) B),
                c_buf = map (uninit c) [0..<unat (snd c)]\<rparr>"
  have s: "for_each (setup_device A B uninit) chunks = Inr (map ?ready chunks)"
    using assms(1,2,4) by (intro for_each_map setup_device_ok)
  have "for_each launch_device (map (\<lambda>c. (c, ?ready c)) chunks)
          = Inr (map (\<lambda>cd. device_result A B (fst cd)) (map (\<lambda>c. (c, ?ready c)) chunks))"
  proof (rule for_each_map)
    fix cd assume "cd \<in> set (map (\<lambda>c. (c, ?ready c)) chunks)"
    then obtain c where c: "c \<in> set chunks" and cd: "cd = (c, ?ready c)" by auto
    show "launch_device cd = Inr (device_result A B (fst cd))"
      unfolding cd fst_conv using assms(1,2) assms(4) [OF c] by (rule launch_device_ok)
  qed
  then have l: "for_each launch_device (zip chunks (map ?ready chunks))
                  = Inr (map (device_result A B) chunks)"
    by (simp add: zip_map_self comp_def)
  have "read_results (map (\<lambda>c. (c, device_result A B c)) chunks)
            (take 0 (map2 (+) A B) @ drop 0 C)
           = Inr (take 16777216 (map2 (+) A B) @ drop 16777216 C)"
    using assms(1,2,3,5) by (intro read_results_contiguous) simp_all
  then have r: "read_results (zip chunks (map (device_result A B) chunks)) C
                  = Inr (map2 (+) A B)"
    using assms(1,2,3) by (simp add: zip_map_self)
  show ?thesis by (simp add: s l r)
qed

lemma single_chunk:
  "unat (fst (0 :: c_int, ARRAY_SIZE)) + unat (snd (0 :: c_int, ARRAY_SIZE)) \<le> 16777216"
  "contiguous 0 [(0, ARRAY_SIZE)] 16777216"
  by (simp_all add: unat_ARRAY_SIZE)

text \<open>
  C2.  With at least one device and arrays of \<open>ARRAY_SIZE\<close> elements, the distributed run
  (every device adds its chunk, the chunks are read back at their offsets) ends with
  \<open>C[i] = A[i] + B[i]\<close> for every index, whatever \<open>C\<close> and the device buffers held before.
  A single device that processes the whole array in one launch ends with the same array.
\<close>

theorem multi_device_vector_add:
  assumes "1 \<le> num_devices"
    and "length A = 16777216" "length B = 16777216" "length C = 16777216"
  shows "main_vector_add num_devices A B C uninit = Inr (map2 (+) A B)
       \<and> single_device_vector_add A B C uninit = Inr (map2 (+) A B)
       \<and> length (map2 (+) A B) = 16777216
       \<and> (\<forall>i<16777216. map2 (+) A B ! i = A ! i + B ! i)"
proof -
  let ?chunks = "map (device_chunk num_devices (ARRAY_SIZE div num_devices))
                   (device_loop num_devices)"
  have n0: "num_devices \<noteq> 0" using assms(1) by (simp add: word_ge_1_iff)
  then have pos: "0 < unat num_devices" by (simp add: unat_gt_0)
  have cont: "contiguous 0 ?chunks 16777216"
    using contiguous_suffix [OF pos] by (simp add: device_loop_def)
  have multi: "main_vector_add num_devices A B C uninit = Inr (map2 (+) A B)"
    unfolding main_vector_add_def work_distribution_chunks [OF n0] sum.case
    using assms(2-4) chunks_in_array cont by (rule run_chunks)
  let ?c = "(0 :: c_int, ARRAY_SIZE)"
  have "read_results (map (\<lambda>c. (c, device_result A B c)) [?c])
            (take 0 (map2 (+) A B) @ drop 0 C)
           = Inr (take 16777216 (map2 (+) A B) @ drop 16777216 C)"
    using assms(2-4) single_chunk(2) by (intro read_results_contiguous) simp_all
  then have "read_results [(?c, device_result A B ?c)] C = Inr (map2 (+) A B)"
    using assms(2-4) by simp
  then have single: "single_device_vector_add A B C uninit = Inr (map2 (+) A B)"
    unfolding single_device_vector_add_def
    by (simp only: setup_device_ok [OF assms(2,3) single_chunk(1)]
        launch_device_ok [OF assms(2,3) single_chunk(1)] sum.case)
  show ?thesis using multi single assms(2,3) by simp
qed

text \<open>Three devices, \<open>A\<close> all ones and \<open>B\<close> all twos: \<open>C\<close> is all threes.\<close>

theorem multi_device_vector_add_witness:
  "main_vector_add 3 (replicate 16777216 1) (replicate 16777216 2) (replicate 16777216 0)
      (\<lambda>c i. 7) = Inr (replicate 16777216 3)
   \<and> single_device_vector_add (replicate 16777216 1) (replicate 16777216 2)
      (replicate 16777216 0) (\<lambda>c i. 7) = Inr (replicate 16777216 3)"
proof -
  have z: "map2 (+) (replicate 16777216 (1 :: c_int)) (replicate 16777216 2)
             = replicate 16777216 3"
    by (simp only: zip_replicate map_replicate min.idem) simp
  have h: "(1 :: cl_uint) \<le> 3" by simp
  show ?thesis
    using multi_device_vector_add [OF h, of "replicate 16777216 1" "replicate 16777216 2"
        "replicate 16777216 0" "\<lambda>c i. 7"]
    unfolding z by (simp only: length_replicate simp_thms)
qed

section \<open>Example 004: the verdict looks at ten elements\<close>

lemma verify_loop_iff:
  "verify_loop A B C is correct = (correct \<and> list_all (\<lambda>i. C ! i = A ! i + B ! i) is)"
  by (induction "is" arbitrary: correct) (simp_all add: Let_def)

lemma first_ten: "list_all P [0..<10] = (\<forall>i<10. P i)"
  by (auto simp: list_all_iff)

text \<open>
  C9.  With the three arrays of \<open>ARRAY_SIZE\<close> elements each, the program prints
  \<open>Verification PASSED\<close> exactly when \<open>C[i] = A[i] + B[i]\<close> for the ten indices below 10,
  and prints \<open>Verification FAILED\<close> otherwise.  An array that agrees with \<open>C\<close> on the first
  ten elements gets the same verdict, whatever it holds from index 10 on.
\<close>

theorem verification_first_ten:
  assumes "length A = 16777216" "length B = 16777216"
    and "length C = 16777216" "length C' = 16777216"
  shows "(verification A B C = ''Verification PASSED'') = (\<forall>i<10. C ! i = A ! i + B ! i)
       \<and> (verification A B C = ''Verification FAILED'') = (\<not> (\<forall>i<10. C ! i = A ! i + B ! i))
       \<and> (take 10 C' = take 10 C \<longrightarrow> verification A B C' = verification A B C)"
proof -
  have v: "verify_loop A B X [0..<10] True = (\<forall>i<10. X ! i = A ! i + B ! i)" for X
    unfolding verify_loop_iff first_ten by simp
  have same: "verification A B C' = verification A B C" if t: "take 10 C' = take 10 C"
  proof -
    have "C' ! i = C ! i" if "i < 10" for i
    proof -
      have "take 10 C' ! i = take 10 C ! i" using t by simp
      then show ?thesis using that by simp
    qed
    then have "(\<forall>i<10. C' ! i = A ! i + B ! i) = (\<forall>i<10. C ! i = A ! i + B ! i)" by simp
    then show ?thesis unfolding verification_def v by simp
  qed
  show ?thesis using same unfolding verification_def v by simp
qed

text \<open>
  \<open>A\<close> all ones, \<open>B\<close> all twos and a \<open>C\<close> that is right on the first ten elements only:
  the verdict is \<open>PASSED\<close>, as it is for the correct array.
\<close>

theorem verification_first_ten_witness:
  "verification (replicate 16777216 1) (replicate 16777216 2)
      (replicate 10 3 @ replicate 16777206 99) = ''Verification PASSED''
   \<and> verification (replicate 16777216 1) (replicate 16777216 2) (replicate 16777216 3)
      = ''Verification PASSED''"
proof -
  let ?A = "replicate 16777216 (1 :: c_int)" and ?B = "replicate 16777216 (2 :: c_int)"
  let ?C = "replicate 16777216 (3 :: c_int)"
  let ?C' = "replicate 10 (3 :: c_int) @ replicate 16777206 99"
  have len: "length ?A = 16777216" "length ?B = 16777216" "length ?C = 16777216"
    "length ?C' = 16777216" by simp_all
  have t: "take 10 ?C' = take 10 ?C" by simp
  have ok: "\<forall>i<10. ?C ! i = ?A ! i + ?B ! i" by simp
  from verification_first_ten [OF len] t ok show ?thesis by simp
qed

section \<open>The kernel \<open>vector_add\<close> writes below \<open>n\<close> only\<close>

lemma sint_nonneg_unat:
  assumes "0 \<le> sint (w :: c_int)"
  shows "nat (sint w) = unat w"
proof (cases "unat w < 2147483648")
  case True
  then show ?thesis by (rule nat_sint_small(2))
next
  case False
  have s: "sint w = (uint w + 2147483648) mod 4294967296 - 2147483648"
    using int_word_sint [where 'a = 32, of "uint w"] by simp
  have "2147483648 \<le> int (unat w)" using False by linarith
  then have lo: "2147483648 \<le> uint w" by simp
  have hi: "uint w < 4294967296" using uint_bounded [of w] by simp
  have "(uint w + 2147483648 - 4294967296) mod 4294967296 = uint w + 2147483648 - 4294967296"
    using lo hi by (intro mod_pos_pos_trivial) simp_all
  then have "(uint w + 2147483648) mod 4294967296 = uint w + 2147483648 - 4294967296"
    by (metis minus_mod_self2)
  then have "sint w < 0" using s hi by simp
  then show ?thesis using assms by simp
qed

lemma vector_add_step:
  assumes "vector_add ops a b n g result = Inr result'"
  shows "length result' = length result \<and> (\<forall>j. unat n \<le> j \<longrightarrow> result' ! j = result ! j)"
proof (cases "(word_of_nat g :: c_int) < n")
  case False
  then show ?thesis using assms by (simp add: vector_add_def Let_def)
next
  case True
  let ?gid = "word_of_nat g :: c_int"
  from True assms have ib: "in_bounds ?gid result"
    and r: "result' = result[nat (sint ?gid) := fadd ops (a ! nat (sint ?gid)) (b ! nat (sint ?gid))]"
    by (simp_all add: vector_add_def Let_def split: if_splits)
  from ib have "nat (sint ?gid) = unat ?gid" by (simp add: in_bounds_def sint_nonneg_unat)
  moreover have "unat ?gid < unat n" using True by (simp add: word_less_nat_alt)
  ultimately show ?thesis unfolding r by simp
qed

lemma launch_preserves:
  assumes "run_work_items (vector_add ops a b n) gs result = Inr result'"
  shows "length result' = length result \<and> (\<forall>j. unat n \<le> j \<longrightarrow> result' ! j = result ! j)"
  using assms
proof (induction gs arbitrary: result)
  case Nil
  then show ?case by simp
next
  case (Cons g gs)
  from Cons.prems obtain r where s: "vector_add ops a b n g result = Inr r"
    and rest: "run_work_items (vector_add ops a b n) gs r = Inr result'"
    by (auto split: sum.splits)
  show ?case using vector_add_step [OF s] Cons.IH [OF rest] by simp
qed

lemma vector_add_in_range:
  assumes "g < unat n" "unat n \<le> 2147483648"
    and "unat n \<le> length a" "unat n \<le> length b" "unat n \<le> length result"
  shows "vector_add ops a b n g result = Inr (result[g := fadd ops (a ! g) (b ! g)])"
proof -
  have g: "g < 2147483648" using assms by linarith
  then have u: "unat (word_of_nat g :: c_int) = g" by (simp add: unat_of_nat)
  then have "(word_of_nat g :: c_int) < n" using assms(1) by (simp add: word_less_nat_alt)
  then show ?thesis
    using assms sint_of_nat_small [OF g]
    by (simp add: vector_add_def Let_def in_bounds_def)
qed

lemma launch_upto_n:
  assumes "g \<le> unat n" "unat n \<le> 2147483648"
    and "unat n \<le> length a" "unat n \<le> length b" "unat n \<le> length result"
  shows "run_work_items (vector_add ops a b n) [0..<g] result
           = Inr (map2 (fadd ops) (take g a) (take g b) @ drop g result)"
  using assms(1)
proof (induction g)
  case 0
  then show ?case by simp
next
  case (Suc g)
  let ?r = "map2 (fadd ops) (take g a) (take g b) @ drop g result"
  have len: "length ?r = length result" using Suc.prems assms by simp
  have l: "length (map2 (fadd ops) (take g a) (take g b)) = g" using Suc.prems assms by simp
  have d: "drop g result = result ! g # drop (Suc g) result"
    using Suc.prems assms by (simp add: Cons_nth_drop_Suc)
  have "vector_add ops a b n g ?r = Inr (?r[g := fadd ops (a ! g) (b ! g)])"
    using Suc.prems assms len by (intro vector_add_in_range) simp_all
  also have "?r[g := fadd ops (a ! g) (b ! g)]
               = map2 (fadd ops) (take g a) (take g b) @ (drop g result)[0 := fadd ops (a ! g) (b ! g)]"
    using l by (simp add: list_update_append)
  also have "\<dots> = map2 (fadd ops) (take g a) (take g b) @ fadd ops (a ! g) (b ! g) # drop (Suc g) result"
    by (subst d) simp
  also have "\<dots> = map2 (fadd ops) (take (Suc g) a) (take (Suc g) b) @ drop (Suc g) result"
    using Suc.prems assms by (simp add: take_Suc_conv_app_nth)
  finally show ?case using Suc by (simp add: run_work_items_append)
qed

lemma vector_add_settled:
  assumes "unat n \<le> 2147483648"
    and "unat n \<le> length a" "unat n \<le> length b" "unat n \<le> length result"
  shows "vector_add ops a b n g
           (map2 (fadd ops) (take (unat n) a) (take (unat n) b) @ drop (unat n) result)
         = Inr (map2 (fadd ops) (take (unat n) a) (take (unat n) b) @ drop (unat n) result)"
proof (cases "(word_of_nat g :: c_int) < n")
  case False
  then show ?thesis by (simp add: vector_add_def Let_def)
next
  case True
  let ?gid = "word_of_nat g :: c_int"
  let ?R = "map2 (fadd ops) (take (unat n) a) (take (unat n) b) @ drop (unat n) result"
  have lt: "unat ?gid < unat n" using True by (simp add: word_less_nat_alt)
  then have small: "unat ?gid < 2147483648" using assms(1) by linarith
  have i: "0 \<le> sint ?gid" "nat (sint ?gid) = unat ?gid" using nat_sint_small [OF small] by simp_all
  have len: "length ?R = length result" using assms by simp
  have "?R ! unat ?gid = map2 (fadd ops) (take (unat n) a) (take (unat n) b) ! unat ?gid"
    using lt assms by (simp add: nth_append)
  also have "\<dots> = fadd ops (a ! unat ?gid) (b ! unat ?gid)"
    using lt assms by simp
  finally have "?R[unat ?gid := fadd ops (a ! unat ?gid) (b ! unat ?gid)] = ?R"
    by (metis list_update_id)
  then show ?thesis
    using True i lt assms len
    by (simp add: vector_add_def Let_def in_bounds_def del: length_append length_map)
qed

lemma launch_settled:
  assumes "unat n \<le> 2147483648"
    and "unat n \<le> length a" "unat n \<le> length b" "unat n \<le> length result"
  shows "run_work_items (vector_add ops a b n) gs
           (map2 (fadd ops) (take (unat n) a) (take (unat n) b) @ drop (unat n) result)
         = Inr (map2 (fadd ops) (take (unat n) a) (take (unat n) b) @ drop (unat n) result)"
  by (induction gs) (simp_all add: vector_add_settled [OF assms])

text \<open>
  C10.  A work item whose \<open>gid\<close> is not below \<open>n\<close> returns the result buffer as it found
  it.  Whatever the global size, a launch that ends leaves the length of the buffer and
  every element at an index \<open>\<ge> n\<close> unchanged.  And the launch does end: with
  \<open>n \<le> 2^31\<close>, buffers of at least \<open>n\<close> elements and any global size of at least \<open>n\<close>,
  it returns the first \<open>n\<close> sums followed by the old elements from index \<open>n\<close> on.
\<close>

theorem vector_add_guard:
  "(\<not> (word_of_nat global_id :: c_int) < n
      \<longrightarrow> vector_add ops a b n global_id result = Inr result)
   \<and> (launch_vector_add ops a b n global_size result = Inr result'
      \<longrightarrow> length result' = length result \<and> (\<forall>j. unat n \<le> j \<longrightarrow> result' ! j = result ! j))
   \<and> (unat n \<le> global_size \<and> unat n \<le> 2147483648
      \<and> unat n \<le> length a \<and> unat n \<le> length b \<and> unat n \<le> length result
      \<longrightarrow> launch_vector_add ops a b n global_size result
            = Inr (map2 (fadd ops) (take (unat n) a) (take (unat n) b) @ drop (unat n) result))"
proof -
  have a: "vector_add ops a b n global_id result = Inr result"
    if "\<not> (word_of_nat global_id :: c_int) < n"
    using that by (simp add: vector_add_def Let_def)
  have b: "length result' = length result \<and> (\<forall>j. unat n \<le> j \<longrightarrow> result' ! j = result ! j)"
    if "launch_vector_add ops a b n global_size result = Inr result'"
    using that unfolding launch_vector_add_def by (rule launch_preserves)
  have c: "launch_vector_add ops a b n global_size result
            = Inr (map2 (fadd ops) (take (unat n) a) (take (unat n) b) @ drop (unat n) result)"
    if h: "unat n \<le> global_size" "unat n \<le> 2147483648"
       "unat n \<le> length a" "unat n \<le> length b" "unat n \<le> length result"
  proof -
    have split: "[0..<global_size] = [0..<unat n] @ [unat n..<global_size]"
      using h(1) by (metis le_add_diff_inverse upt_add_eq_append zero_le)
    show ?thesis
      unfolding launch_vector_add_def split run_work_items_append
      using launch_upto_n [OF order_refl h(2-5), of ops] launch_settled [OF h(2-5), of ops]
      by simp
  qed
  show ?thesis using a b c by blast
qed

text \<open>
  Three elements and eight work items, with integers for floats: the last five work items
  write nothing, and the two elements of the buffer past \<open>n\<close> keep their value.
\<close>

theorem vector_add_guard_witness:
  "launch_vector_add \<lparr>fadd = (+), fmul = (*), fzero = 0\<rparr> [1, 2, 3] [10, 20, 30] 3 8
      [7, 7, 7, 8, 9 :: int] = Inr [11, 22, 33, 8, 9]
   \<and> vector_add \<lparr>fadd = (+), fmul = (*), fzero = 0\<rparr> [1, 2, 3] [10, 20, 30] 3 5
      [7, 7, 7, 8, 9 :: int] = Inr [7, 7, 7, 8, 9]"
  using vector_add_guard [of 5 3 "\<lparr>fadd = (+), fmul = (*), fzero = 0\<rparr>"
      "[1, 2, 3]" "[10, 20, 30]" "[7, 7, 7, 8, 9 :: int]" 8]
  by simp

section \<open>Example 003: the breakeven point is the first faster size\<close>

lemma test_devices_effect:
  assumes "length bps = n" "length found = n" "j + length ts \<le> n"
  shows "length (fst (test_devices sz cpu ts j (bps, found))) = n
       \<and> length (snd (test_devices sz cpu ts j (bps, found))) = n
       \<and> (\<forall>i<n. snd (test_devices sz cpu ts j (bps, found)) ! i
                  = (found ! i \<or> (j \<le> i \<and> i < j + length ts \<and> ts ! (i - j) < cpu))
              \<and> fst (test_devices sz cpu ts j (bps, found)) ! i
                  = (if \<not> found ! i \<and> j \<le> i \<and> i < j + length ts \<and> ts ! (i - j) < cpu
                     then sz else bps ! i))"
  using assms
proof (induction ts arbitrary: j bps found)
  case Nil
  then show ?case by auto
next
  case (Cons t ts)
  define hit where "hit = (\<not> found ! j \<and> t < cpu)"
  define bps2 where "bps2 = (if hit then bps[j := sz] else bps)"
  define found2 where "found2 = (if hit then found[j := True] else found)"
  define later where
    "later = (\<lambda>i. Suc j \<le> i \<and> i < Suc j + length ts \<and> ts ! (i - Suc j) < cpu)"
  define now where
    "now = (\<lambda>i. j \<le> i \<and> i < j + length (t # ts) \<and> (t # ts) ! (i - j) < cpu)"
  have step: "test_devices sz cpu (t # ts) j (bps, found)
                = test_devices sz cpu ts (Suc j) (bps2, found2)"
    by (simp add: Let_def bps2_def found2_def hit_def)
  have l: "length bps2 = n" "length found2 = n" "Suc j + length ts \<le> n"
    using Cons.prems by (simp_all add: bps2_def found2_def)
  have IH: "length (fst (test_devices sz cpu ts (Suc j) (bps2, found2))) = n"
    "length (snd (test_devices sz cpu ts (Suc j) (bps2, found2))) = n"
    "\<And>i. i < n \<Longrightarrow> snd (test_devices sz cpu ts (Suc j) (bps2, found2)) ! i
                      = (found2 ! i \<or> later i)"
    "\<And>i. i < n \<Longrightarrow> fst (test_devices sz cpu ts (Suc j) (bps2, found2)) ! i
                      = (if \<not> found2 ! i \<and> later i then sz else bps2 ! i)"
    using Cons.IH [OF l] unfolding later_def by blast+
  have jn: "j < n" using Cons.prems by simp
  have fj: "found2 ! j = (found ! j \<or> t < cpu)"
    using jn Cons.prems(2) by (simp add: found2_def hit_def)
  have bj: "bps2 ! j = (if \<not> found ! j \<and> t < cpu then sz else bps ! j)"
    using jn Cons.prems(1) by (simp add: bps2_def hit_def)
  have other: "found2 ! i = found ! i" "bps2 ! i = bps ! i" if "i \<noteq> j" for i
    using that by (simp_all add: bps2_def found2_def)
  have nowj: "now j = (t < cpu)" "\<not> later j" by (simp_all add: now_def later_def)
  have nowi: "now i = later i" if "i \<noteq> j" for i
  proof (cases "i < j")
    case True
    then show ?thesis by (simp add: now_def later_def)
  next
    case False
    then have "j < i" using that by simp
    then obtain d where d: "i = Suc (j + d)" using less_iff_Suc_add by auto
    show ?thesis unfolding d by (simp add: now_def later_def)
  qed
  have snd_i: "snd (test_devices sz cpu ts (Suc j) (bps2, found2)) ! i = (found ! i \<or> now i)"
    if "i < n" for i
  proof (cases "i = j")
    case True
    show ?thesis using IH(3) [OF that] fj nowj unfolding True by simp
  next
    case False
    show ?thesis using IH(3) [OF that] other(1) [OF False] nowi [OF False] by simp
  qed
  have fst_i: "fst (test_devices sz cpu ts (Suc j) (bps2, found2)) ! i
                 = (if \<not> found ! i \<and> now i then sz else bps ! i)"
    if "i < n" for i
  proof (cases "i = j")
    case True
    show ?thesis using IH(4) [OF that] fj bj nowj unfolding True by simp
  next
    case False
    show ?thesis using IH(4) [OF that] other [OF False] nowi [OF False] by simp
  qed
  show ?case
    unfolding step using IH(1,2) snd_i fst_i unfolding now_def by blast
qed

lemma run_tests_effect:
  assumes "length bps = n" "length found = n"
    and "list_all (\<lambda>test. length (snd (snd test)) = n) tests" "i < n"
  shows "snd (run_tests tests (bps, found)) ! i
           = (found ! i \<or> find (\<lambda>test. faster i (snd test)) tests \<noteq> None)
       \<and> fst (run_tests tests (bps, found)) ! i
           = (if found ! i then bps ! i
              else case find (\<lambda>test. faster i (snd test)) tests of
                     None \<Rightarrow> bps ! i
                   | Some test \<Rightarrow> fst test)"
  using assms(1-3)
proof (induction tests arbitrary: bps found)
  case Nil
  then show ?case by simp
next
  case (Cons test tests)
  let ?P = "\<lambda>test. faster i (snd test)"
  obtain sz cpu ts where test: "test = (sz, cpu, ts)" by (cases test) auto
  obtain bps' found' where st: "test_devices sz cpu ts 0 (bps, found) = (bps', found')"
    by (cases "test_devices sz cpu ts 0 (bps, found)") auto
  have lts: "length ts = n" using Cons.prems test by simp
  have eff: "length bps' = n \<and> length found' = n
       \<and> (\<forall>i<n. found' ! i = (found ! i \<or> (0 \<le> i \<and> i < 0 + length ts \<and> ts ! (i - 0) < cpu))
              \<and> bps' ! i = (if \<not> found ! i \<and> 0 \<le> i \<and> i < 0 + length ts \<and> ts ! (i - 0) < cpu
                     then sz else bps ! i))"
    using test_devices_effect [of bps n found 0 ts sz cpu] Cons.prems(1,2) lts
    unfolding st by simp
  then have l: "length bps' = n" "length found' = n"
    and f: "found' ! i = (found ! i \<or> ts ! i < cpu)"
    and b: "bps' ! i = (if \<not> found ! i \<and> ts ! i < cpu then sz else bps ! i)"
    using assms(4) lts by simp_all
  have rest: "list_all (\<lambda>test. length (snd (snd test)) = n) tests" using Cons.prems by simp
  have w: "?P test = (ts ! i < cpu)" by (simp add: test faster_def)
  have run: "run_tests (test # tests) (bps, found) = run_tests tests (bps', found')"
    by (simp add: test st)
  note IH = Cons.IH [OF l rest]
  show ?case
  proof (cases "ts ! i < cpu")
    case True
    then have fnd: "find ?P (test # tests) = Some test" using w by simp
    show ?thesis unfolding run fnd using IH f b True by (simp add: test)
  next
    case False
    then have fnd: "find ?P (test # tests) = find ?P tests" using w by simp
    show ?thesis unfolding run fnd using IH f b False by (simp split: option.splits)
  qed
qed

lemma sizes_increasing: "sorted_wrt (<) sizes"
  by (simp add: sizes_def)

lemma length_sizes: "length sizes = 10"
  by (simp add: sizes_def)

text \<open>
  C5.  For each device, over the ten test sizes in their order: the summary says
  \<open>Not reached\<close> exactly when the device was not faster than the CPU (its time strictly
  below the CPU time) at any tested size; otherwise it prints the smallest tested size
  at which the device was faster.  The sizes at which the device was slower again later
  play no part.
\<close>

theorem breakeven_is_first_faster_size:
  assumes "length measurements = 10"
    and "list_all (\<lambda>m. length (snd m) = n) measurements" "i < n"
  shows "(breakeven_summary n measurements ! i = NotReached)
           = (\<forall>k<10. \<not> faster i (measurements ! k))
       \<and> ((\<exists>k<10. faster i (measurements ! k)) \<longrightarrow>
            breakeven_summary n measurements ! i
              = Elements (Min {sizes ! k |k. k < 10 \<and> faster i (measurements ! k)}))"
proof -
  let ?tests = "zip sizes measurements"
  let ?P = "\<lambda>test. faster i (snd test)"
  have len: "length ?tests = 10" using assms(1) length_sizes by simp
  have nth: "?tests ! k = (sizes ! k, measurements ! k)" if "k < 10" for k
    using that assms(1) length_sizes by simp
  have all: "list_all (\<lambda>test. length (snd (snd test)) = n) ?tests"
    unfolding list_all_iff
  proof
    fix test assume "test \<in> set ?tests"
    then have "(fst test, snd test) \<in> set (zip sizes measurements)" by simp
    then have "snd test \<in> set measurements" by (rule set_zip_rightD)
    then show "length (snd (snd test)) = n" using assms(2) by (simp add: list_all_iff)
  qed
  have eff: "snd (run_tests ?tests (replicate n 0, replicate n False)) ! i
               = (find ?P ?tests \<noteq> None)"
    "fst (run_tests ?tests (replicate n 0, replicate n False)) ! i
               = (case find ?P ?tests of None \<Rightarrow> 0 | Some test \<Rightarrow> fst test)"
    using run_tests_effect [of "replicate n 0" n "replicate n False" ?tests i] all assms(3)
    by (simp_all split: option.splits)
  have summ: "breakeven_summary n measurements ! i
                = (case find ?P ?tests of None \<Rightarrow> NotReached | Some test \<Rightarrow> Elements (fst test))"
    using assms(3) eff by (simp add: breakeven_summary_def Let_def split: option.splits)
  have none: "(find ?P ?tests = None) = (\<forall>k<10. \<not> faster i (measurements ! k))"
  proof -
    have "(find ?P ?tests = None) = (\<forall>test\<in>set ?tests. \<not> ?P test)"
      by (simp only: find_None_iff) blast
    also have "\<dots> = (\<forall>k<length ?tests. \<not> ?P (?tests ! k))"
      by (simp only: all_set_conv_all_nth)
    also have "\<dots> = (\<forall>k<10. \<not> faster i (measurements ! k))"
      unfolding len using nth by simp
    finally show ?thesis .
  qed
  have mono: "sizes ! a < sizes ! b" if "a < b" "b < 10" for a b
    using sizes_increasing that length_sizes by (simp add: sorted_wrt_iff_nth_less)
  have first: "breakeven_summary n measurements ! i
                 = Elements (Min {sizes ! k |k. k < 10 \<and> faster i (measurements ! k)})"
    if ex: "\<exists>k<10. faster i (measurements ! k)"
  proof -
    from ex none have "find ?P ?tests \<noteq> None" by simp
    then obtain test where fnd: "find ?P ?tests = Some test" by blast
    then have "\<exists>k<length ?tests. ?P (?tests ! k) \<and> test = ?tests ! k
                 \<and> (\<forall>j<k. \<not> ?P (?tests ! j))"
      by (simp only: find_Some_iff)
    then obtain k where k: "k < 10" and t: "test = ?tests ! k" and w: "?P (?tests ! k)"
      and before: "\<forall>j<k. \<not> ?P (?tests ! j)"
      unfolding len by blast
    let ?S = "{sizes ! k |k. k < 10 \<and> faster i (measurements ! k)}"
    have fin: "finite ?S" by simp
    have "faster i (measurements ! k)" using w nth [OF k] by simp
    then have mem: "sizes ! k \<in> ?S" using k by blast
    have least: "sizes ! k \<le> x" if "x \<in> ?S" for x
    proof -
      from that obtain k' where k': "k' < 10" and x: "x = sizes ! k'"
        and w': "faster i (measurements ! k')" by blast
      have "?P (?tests ! k')" using w' nth [OF k'] by simp
      then have "\<not> k' < k" using before by blast
      then have "k \<le> k'" by simp
      then show ?thesis unfolding x using mono [of k k'] k' by (cases "k = k'") simp_all
    qed
    have "Min ?S = sizes ! k" using fin least mem by (rule Min_eqI)
    then show ?thesis using summ fnd t nth k by simp
  qed
  have "(breakeven_summary n measurements ! i = NotReached) = (find ?P ?tests = None)"
    unfolding summ by (simp split: option.splits)
  then have nr: "(breakeven_summary n measurements ! i = NotReached)
                   = (\<forall>k<10. \<not> faster i (measurements ! k))"
    unfolding none .
  show ?thesis using nr first by (intro conjI impI)
qed


text \<open>
  Two devices, times in microseconds.  The first device is never faster.  The second is
  faster from 4096 elements on, except at 4194304 elements.
\<close>

theorem breakeven_is_first_faster_size_witness:
  "breakeven_summary 2
     [(5 :: nat, [6, 7]), (5, [6, 4]), (5, [6, 4]), (5, [6, 4]), (5, [6, 4]),
      (5, [6, 4]), (5, [6, 9]), (5, [6, 4]), (5, [6, 4]), (5, [6, 4])] ! 0 = NotReached
   \<and> breakeven_summary 2
     [(5 :: nat, [6, 7]), (5, [6, 4]), (5, [6, 4]), (5, [6, 4]), (5, [6, 4]),
      (5, [6, 4]), (5, [6, 9]), (5, [6, 4]), (5, [6, 4]), (5, [6, 4])] ! 1 = Elements 4096"
proof -
  let ?ms = "[(5 :: nat, [6, 7 :: nat]), (5, [6, 4]), (5, [6, 4]), (5, [6, 4]), (5, [6, 4]),
      (5, [6, 4]), (5, [6, 9]), (5, [6, 4]), (5, [6, 4]), (5, [6, 4])]"
  have h: "length ?ms = 10" "list_all (\<lambda>m. length (snd m) = 2) ?ms" "(0 :: nat) < 2"
    by simp_all
  have "\<forall>m\<in>set ?ms. \<not> faster 0 m" by (simp add: faster_def)
  moreover have "?ms ! k \<in> set ?ms" if "k < 10" for k
    using that by (intro nth_mem) simp
  ultimately have never: "\<forall>k<10. \<not> faster 0 (?ms ! k)" by blast
  have second: "breakeven_summary 2 ?ms ! 1 = Elements 4096"
    by (simp add: breakeven_summary_def sizes_def Let_def)
  from breakeven_is_first_faster_size [OF h] never second show ?thesis by blast
qed

section \<open>Example 004: the order of the calls\<close>

lemma all_calls_append: "all_calls (xs @ ys) = all_calls xs @ all_calls ys"
  by (simp add: all_calls_def)

lemma all_calls_Nil: "all_calls [] = []"
  by (simp add: all_calls_def)

lemma all_calls_Cons: "all_calls (s # steps) = step_calls s @ all_calls steps"
  by (simp add: all_calls_def)

lemma all_calls_mem: "c \<in> set (all_calls steps) = (\<exists>s\<in>set steps. c \<in> set (step_calls s))"
  by (simp add: all_calls_def)

lemma for_devices_mem: "s \<in> set (for_devices n body) = (\<exists>i<n. s \<in> set (body i))"
  by (auto simp: for_devices_def)

lemma in_phase:
  "c \<in> set (all_calls (for_devices n body)) = (\<exists>i<n. c \<in> set (all_calls (body i)))"
proof
  assume "c \<in> set (all_calls (for_devices n body))"
  then obtain s where "s \<in> set (for_devices n body)" and c: "c \<in> set (step_calls s)"
    unfolding all_calls_mem by blast
  then obtain i where "i < n" and "s \<in> set (body i)" unfolding for_devices_mem by blast
  then show "\<exists>i<n. c \<in> set (all_calls (body i))" using c unfolding all_calls_mem by blast
next
  assume "\<exists>i<n. c \<in> set (all_calls (body i))"
  then obtain i s where i: "i < n" and "s \<in> set (body i)" and c: "c \<in> set (step_calls s)"
    unfolding all_calls_mem by blast
  then have "s \<in> set (for_devices n body)" unfolding for_devices_mem by blast
  then show "c \<in> set (all_calls (for_devices n body))" using c unfolding all_calls_mem by blast
qed

text \<open>
  A run makes the calls of its steps in order and stops at the first check that fails; the
  build log is fetched after a failed build and is the last call then.
\<close>

lemma exec_shape:
  "prefix (fst (exec status steps)) (all_calls steps)
   \<or> (\<exists>pre i. fst (exec status steps) = pre @ [BuildProgram i, GetProgramBuildInfo i]
          \<and> prefix (pre @ [BuildProgram i]) (all_calls steps))"
proof (induction steps)
  case Nil
  then show ?case by (simp add: all_calls_def)
next
  case (Cons s steps)
  let ?r = "fst (exec status steps)"
  have extend: "prefix (cs @ ?r) (cs @ all_calls steps)
      \<or> (\<exists>pre i. cs @ ?r = pre @ [BuildProgram i, GetProgramBuildInfo i]
            \<and> prefix (pre @ [BuildProgram i]) (cs @ all_calls steps))" for cs
  proof -
    from Cons show ?thesis
    proof
      assume "prefix ?r (all_calls steps)"
      then show ?thesis by simp
    next
      assume "\<exists>pre i. ?r = pre @ [BuildProgram i, GetProgramBuildInfo i]
                \<and> prefix (pre @ [BuildProgram i]) (all_calls steps)"
      then obtain pre i where r: "?r = pre @ [BuildProgram i, GetProgramBuildInfo i]"
        and p: "prefix (pre @ [BuildProgram i]) (all_calls steps)" by blast
      have "cs @ ?r = (cs @ pre) @ [BuildProgram i, GetProgramBuildInfo i]" using r by simp
      moreover have "prefix ((cs @ pre) @ [BuildProgram i]) (cs @ all_calls steps)"
        using p by simp
      ultimately show ?thesis by blast
    qed
  qed
  show ?case
  proof (cases s)
    case (Call c)
    then show ?thesis using extend [of "[c]"] by (simp add: all_calls_Cons Let_def)
  next
    case (Checked c msg)
    show ?thesis
    proof (cases "status c = CL_SUCCESS")
      case True
      then show ?thesis
        using extend [of "[c]"] Checked by (simp add: all_calls_Cons Let_def CHECK_ERROR_def)
    next
      case False
      then show ?thesis using Checked by (simp add: all_calls_Cons CHECK_ERROR_def)
    qed
  next
    case (Build i)
    show ?thesis
    proof (cases "status (BuildProgram i) = CL_SUCCESS")
      case True
      then show ?thesis
        using extend [of "[BuildProgram i]"] Build by (simp add: all_calls_Cons Let_def)
    next
      case False
      have "fst (exec status (s # steps)) = [] @ [BuildProgram i, GetProgramBuildInfo i]"
        using False Build by simp
      moreover have "prefix ([] @ [BuildProgram i]) (all_calls (s # steps))"
        using Build by (simp add: all_calls_Cons)
      ultimately show ?thesis by blast
    qed
  next
    case (SetArgs i)
    let ?cs = "[SetKernelArg i 0, SetKernelArg i 1, SetKernelArg i 2, SetKernelArg i 3]"
    show ?thesis
    proof (cases "status (SetKernelArg i 0) OR status (SetKernelArg i 1)
                  OR status (SetKernelArg i 2) OR status (SetKernelArg i 3) = CL_SUCCESS")
      case True
      then show ?thesis
        using extend [of ?cs] SetArgs by (simp add: all_calls_Cons Let_def CHECK_ERROR_def)
    next
      case False
      then show ?thesis using SetArgs by (simp add: all_calls_Cons Let_def CHECK_ERROR_def)
    qed
  qed
qed


subsection \<open>Order in a trace\<close>

lemma never_before_absent: "b \<notin> set tr \<Longrightarrow> never_before b a tr"
  unfolding never_before_def by (auto dest: set_takeWhileD)

lemma never_before_prefix:
  assumes "prefix xs ys" "never_before b a ys"
  shows "never_before b a xs"
proof -
  from assms(1) obtain zs where ys: "ys = xs @ zs" by (auto simp: prefix_def)
  have "set (takeWhile (\<lambda>x. x \<noteq> a) xs) \<subseteq> set (takeWhile (\<lambda>x. x \<noteq> a) (xs @ zs))"
  proof (cases "a \<in> set xs")
    case True
    then show ?thesis by simp
  next
    case False
    then have "takeWhile (\<lambda>x. x \<noteq> a) (xs @ zs) = xs @ takeWhile (\<lambda>x. x \<noteq> a) zs"
      by (intro takeWhile_append2) auto
    moreover have "set (takeWhile (\<lambda>x. x \<noteq> a) xs) \<subseteq> set xs"
      by (auto dest: set_takeWhileD)
    ultimately show ?thesis by auto
  qed
  then show ?thesis using assms(2) unfolding never_before_def ys by blast
qed

lemma never_before_append:
  assumes "b \<notin> set xs" "a \<in> set xs"
  shows "never_before b a (xs @ ys)"
proof -
  have "takeWhile (\<lambda>x. x \<noteq> a) (xs @ ys) = takeWhile (\<lambda>x. x \<noteq> a) xs"
    using assms(2) by (intro takeWhile_append1 [of a]) simp_all
  then show ?thesis
    using assms(1) set_takeWhileD [of b "\<lambda>x. x \<noteq> a" xs] unfolding never_before_def by auto
qed

lemma never_before_more:
  assumes "never_before b a xs" "b \<notin> set ys"
  shows "never_before b a (xs @ ys)"
proof (cases "a \<in> set xs")
  case True
  then have "takeWhile (\<lambda>x. x \<noteq> a) (xs @ ys) = takeWhile (\<lambda>x. x \<noteq> a) xs"
    by (intro takeWhile_append1 [of a]) simp_all
  then show ?thesis using assms(1) unfolding never_before_def by simp
next
  case False
  then have whole: "takeWhile (\<lambda>x. x \<noteq> a) xs = xs" unfolding takeWhile_eq_all_conv by blast
  have "b \<notin> set xs" using assms(1) unfolding never_before_def whole .
  then have "b \<notin> set (xs @ ys)" using assms(2) by simp
  then show ?thesis by (rule never_before_absent)
qed

lemma never_before_later:
  assumes "a \<notin> set xs" "b \<notin> set xs"
  shows "never_before b a (xs @ ys) = never_before b a ys"
proof -
  have "takeWhile (\<lambda>x. x \<noteq> a) (xs @ ys) = xs @ takeWhile (\<lambda>x. x \<noteq> a) ys"
    using assms(1) by (intro takeWhile_append2) auto
  then show ?thesis using assms(2) unfolding never_before_def by simp
qed

lemma never_before_exec:
  assumes "never_before b a (all_calls steps)" "\<And>i. b \<noteq> GetProgramBuildInfo i"
  shows "never_before b a (fst (exec status steps))"
  using exec_shape [of status steps]
proof
  assume "prefix (fst (exec status steps)) (all_calls steps)"
  then show ?thesis using assms(1) by (rule never_before_prefix)
next
  assume "\<exists>pre i. fst (exec status steps) = pre @ [BuildProgram i, GetProgramBuildInfo i]
            \<and> prefix (pre @ [BuildProgram i]) (all_calls steps)"
  then obtain pre i where tr: "fst (exec status steps) = (pre @ [BuildProgram i]) @ [GetProgramBuildInfo i]"
    and p: "prefix (pre @ [BuildProgram i]) (all_calls steps)" by auto
  have "never_before b a (pre @ [BuildProgram i])" using p assms(1) by (rule never_before_prefix)
  moreover have "b \<notin> set [GetProgramBuildInfo i]" using assms(2) by simp
  ultimately show ?thesis unfolding tr by (rule never_before_more)
qed

lemma sorted_prefix:
  assumes "prefix xs ys" "sorted (map f ys)"
  shows "sorted (map f xs)"
proof -
  from assms(1) obtain zs where "ys = xs @ zs" by (auto simp: prefix_def)
  then show ?thesis using assms(2) by (simp add: sorted_append)
qed

lemma sorted_stage_exec:
  assumes "sorted (map stage (all_calls steps))"
  shows "sorted (map stage (fst (exec status steps)))"
  using exec_shape [of status steps]
proof
  assume "prefix (fst (exec status steps)) (all_calls steps)"
  then show ?thesis using assms by (rule sorted_prefix)
next
  assume "\<exists>pre i. fst (exec status steps) = pre @ [BuildProgram i, GetProgramBuildInfo i]
            \<and> prefix (pre @ [BuildProgram i]) (all_calls steps)"
  then obtain pre i where tr: "fst (exec status steps) = pre @ [BuildProgram i, GetProgramBuildInfo i]"
    and p: "prefix (pre @ [BuildProgram i]) (all_calls steps)" by auto
  have "sorted (map stage (pre @ [BuildProgram i]))" using p assms by (rule sorted_prefix)
  then show ?thesis unfolding tr by (simp add: sorted_append)
qed

lemma exec_complete:
  assumes "snd (exec status steps) = None"
  shows "fst (exec status steps) = all_calls steps"
  using assms
proof (induction steps)
  case Nil
  then show ?case by (simp add: all_calls_def)
next
  case (Cons s steps)
  then show ?case
    by (cases s) (auto simp: all_calls_Cons Let_def CHECK_ERROR_def split: sum.splits if_splits)
qed

lemma exec_success:
  assumes "\<And>c. status c = CL_SUCCESS"
  shows "snd (exec status steps) = None"
proof (induction steps)
  case Nil
  then show ?case by simp
next
  case (Cons s steps)
  then show ?case
    by (cases s) (simp_all add: assms Let_def CHECK_ERROR_def CL_SUCCESS_def)
qed

lemma exec_append_failed:
  assumes "snd (exec status xs) \<noteq> None"
  shows "exec status (xs @ ys) = exec status xs"
  using assms
proof (induction xs)
  case Nil
  then show ?case by simp
next
  case (Cons s xs)
  then show ?case
    by (cases s) (auto simp: Let_def CHECK_ERROR_def split: sum.splits if_splits)
qed

lemma exec_passed:
  assumes "snd (exec status steps) = None"
  shows "(Checked c msg \<in> set steps \<longrightarrow> status c = CL_SUCCESS)
       \<and> (Build i \<in> set steps \<longrightarrow> status (BuildProgram i) = CL_SUCCESS)"
  using assms
proof (induction steps)
  case Nil
  then show ?case by simp
next
  case (Cons s steps)
  then show ?case
    by (cases s) (auto simp: Let_def CHECK_ERROR_def split: sum.splits if_splits)
qed

lemma exec_exit_1:
  assumes "snd (exec status steps) = Some e"
  shows "\<exists>d. e = Exit 1 d"
  using assms
proof (induction steps)
  case Nil
  then show ?case by simp
next
  case (Cons s steps)
  then show ?case
    by (cases s) (auto simp: Let_def CHECK_ERROR_def split: sum.splits if_splits)
qed


subsection \<open>The calls of the device loops\<close>

lemma setup_calls:
  "set (all_calls (setup_steps i)) =
     {GetDeviceInfo i, CreateContext i, CreateCommandQueue i, CreateProgramWithSource i,
      BuildProgram i, CreateKernel i, CreateBuffer i BufA, CreateBuffer i BufB,
      CreateBuffer i BufC, EnqueueWriteBuffer i BufA, EnqueueWriteBuffer i BufB,
      SetKernelArg i 0, SetKernelArg i 1, SetKernelArg i 2, SetKernelArg i 3}"
  by (simp add: all_calls_def setup_steps_def)

lemma launch_calls: "set (all_calls (launch_steps i)) = {EnqueueNDRangeKernel i}"
  by (simp add: all_calls_def launch_steps_def)

lemma wait_calls: "set (all_calls (wait_steps i)) = {WaitForEvents i}"
  by (simp add: all_calls_def wait_steps_def)

lemma timeline_calls:
  "set (all_calls (timeline_steps i)) =
     {GetEventProfilingInfo i CommandStart, GetEventProfilingInfo i CommandEnd,
      Printf (Timeline i)}"
  by (simp add: all_calls_def timeline_steps_def)

lemma read_calls: "set (all_calls (read_steps i)) = {EnqueueReadBuffer i}"
  by (simp add: all_calls_def read_steps_def)

lemma cleanup_calls:
  "set (all_calls (cleanup_steps i)) =
     {ReleaseMemObject i BufA, ReleaseMemObject i BufB, ReleaseMemObject i BufC,
      ReleaseKernel i, ReleaseProgram i, ReleaseCommandQueue i, ReleaseContext i,
      ReleaseEvent i}"
  by (simp add: all_calls_def cleanup_steps_def)

lemma concurrency_calls:
  assumes "c \<in> set (all_calls (concurrency_steps n i))"
  shows "\<exists>j p. c = GetEventProfilingInfo j p \<or> c = Printf (Concurrency i j)"
proof -
  from assms obtain s where s: "s \<in> set (concurrency_steps n i)" and c: "c \<in> set (step_calls s)"
    unfolding all_calls_mem by blast
  from s obtain j where
    "s \<in> set [Call (GetEventProfilingInfo i CommandStart),
                Call (GetEventProfilingInfo i CommandEnd),
                Call (GetEventProfilingInfo j CommandStart),
                Call (GetEventProfilingInfo j CommandEnd),
                Call (Printf (Concurrency i j))]"
    unfolding concurrency_steps_def by (auto simp only: set_concat set_map)
  then show ?thesis using c by auto
qed

lemma stage_of_loop:
  "c \<in> set (all_calls (for_devices n setup_steps)) \<Longrightarrow> stage c = 1"
  "c \<in> set (all_calls (for_devices n launch_steps)) \<Longrightarrow> stage c = 2"
  "c \<in> set (all_calls (for_devices n wait_steps)) \<Longrightarrow> stage c = 3"
  "c \<in> set (all_calls (for_devices n timeline_steps)) \<Longrightarrow> stage c = 4"
  "c \<in> set (all_calls (for_devices n (concurrency_steps n))) \<Longrightarrow> stage c = 4"
  "c \<in> set (all_calls (for_devices n read_steps)) \<Longrightarrow> stage c = 5"
  "c \<in> set (all_calls (for_devices n cleanup_steps)) \<Longrightarrow> stage c = 7"
proof -
  show "c \<in> set (all_calls (for_devices n setup_steps)) \<Longrightarrow> stage c = 1"
    unfolding in_phase setup_calls by auto
  show "c \<in> set (all_calls (for_devices n launch_steps)) \<Longrightarrow> stage c = 2"
    unfolding in_phase launch_calls by auto
  show "c \<in> set (all_calls (for_devices n wait_steps)) \<Longrightarrow> stage c = 3"
    unfolding in_phase wait_calls by auto
  show "c \<in> set (all_calls (for_devices n timeline_steps)) \<Longrightarrow> stage c = 4"
    unfolding in_phase timeline_calls by auto
  show "c \<in> set (all_calls (for_devices n (concurrency_steps n))) \<Longrightarrow> stage c = 4"
    unfolding in_phase using concurrency_calls by fastforce
  show "c \<in> set (all_calls (for_devices n read_steps)) \<Longrightarrow> stage c = 5"
    unfolding in_phase read_calls by auto
  show "c \<in> set (all_calls (for_devices n cleanup_steps)) \<Longrightarrow> stage c = 7"
    unfolding in_phase cleanup_calls by auto
qed

lemma stage_block:
  assumes "\<And>c. c \<in> set xs \<Longrightarrow> stage c = k" and "k \<le> k'"
    and "sorted (map stage ys) \<and> (\<forall>c\<in>set ys. k' \<le> stage c)"
  shows "sorted (map stage (xs @ ys)) \<and> (\<forall>c\<in>set (xs @ ys). k \<le> stage c)"
  using assms(1)
proof (induction xs)
  case Nil
  then show ?case using assms(2,3) by auto
next
  case (Cons x xs)
  then have "sorted (map stage (xs @ ys)) \<and> (\<forall>c\<in>set (xs @ ys). k \<le> stage c)" by simp
  moreover have "stage x = k" using Cons.prems by simp
  ultimately show ?case by auto
qed

lemma main_calls:
  "all_calls (main_steps n) =
     all_calls (for_devices n setup_steps)
     @ all_calls (for_devices n launch_steps)
     @ all_calls (for_devices n wait_steps)
     @ all_calls (for_devices n timeline_steps)
     @ [Printf TotalTime]
     @ all_calls (for_devices n (concurrency_steps n))
     @ all_calls (for_devices n read_steps)
     @ [Printf Verdict]
     @ all_calls (for_devices n cleanup_steps)"
  by (simp add: main_steps_def all_calls_append all_calls_Cons)

lemma main_calls_sorted: "sorted (map stage (all_calls (main_steps n)))"
proof -
  let ?from = "\<lambda>k tr. sorted (map stage tr) \<and> (\<forall>c\<in>set tr. k \<le> stage c)"
  have s1: "?from 7 (all_calls (for_devices n cleanup_steps) @ [])"
    by (rule stage_block [where k' = 7]) (auto dest: stage_of_loop)
  have s2: "?from 6 ([Printf Verdict] @ all_calls (for_devices n cleanup_steps) @ [])"
    by (rule stage_block [where k' = 7]) (use s1 in \<open>auto dest: stage_of_loop\<close>)
  have s3: "?from 5 (all_calls (for_devices n read_steps) @ [Printf Verdict]
                @ all_calls (for_devices n cleanup_steps) @ [])"
    by (rule stage_block [where k' = 6]) (use s2 in \<open>auto dest: stage_of_loop\<close>)
  have s4: "?from 4 (all_calls (for_devices n (concurrency_steps n))
                @ all_calls (for_devices n read_steps) @ [Printf Verdict]
                @ all_calls (for_devices n cleanup_steps) @ [])"
    by (rule stage_block [where k' = 5]) (use s3 in \<open>auto dest: stage_of_loop\<close>)
  have s5: "?from 4 ([Printf TotalTime] @ all_calls (for_devices n (concurrency_steps n))
                @ all_calls (for_devices n read_steps) @ [Printf Verdict]
                @ all_calls (for_devices n cleanup_steps) @ [])"
    by (rule stage_block [where k' = 4]) (use s4 in \<open>auto dest: stage_of_loop\<close>)
  have s6: "?from 4 (all_calls (for_devices n timeline_steps) @ [Printf TotalTime]
                @ all_calls (for_devices n (concurrency_steps n))
                @ all_calls (for_devices n read_steps) @ [Printf Verdict]
                @ all_calls (for_devices n cleanup_steps) @ [])"
    by (rule stage_block [where k' = 4]) (use s5 in \<open>auto dest: stage_of_loop\<close>)
  have s7: "?from 3 (all_calls (for_devices n wait_steps)
                @ all_calls (for_devices n timeline_steps) @ [Printf TotalTime]
                @ all_calls (for_devices n (concurrency_steps n))
                @ all_calls (for_devices n read_steps) @ [Printf Verdict]
                @ all_calls (for_devices n cleanup_steps) @ [])"
    by (rule stage_block [where k' = 4]) (use s6 in \<open>auto dest: stage_of_loop\<close>)
  have s8: "?from 2 (all_calls (for_devices n launch_steps)
                @ all_calls (for_devices n wait_steps)
                @ all_calls (for_devices n timeline_steps) @ [Printf TotalTime]
                @ all_calls (for_devices n (concurrency_steps n))
                @ all_calls (for_devices n read_steps) @ [Printf Verdict]
                @ all_calls (for_devices n cleanup_steps) @ [])"
    by (rule stage_block [where k' = 3]) (use s7 in \<open>auto dest: stage_of_loop\<close>)
  have s9: "?from 1 (all_calls (for_devices n setup_steps)
                @ all_calls (for_devices n launch_steps)
                @ all_calls (for_devices n wait_steps)
                @ all_calls (for_devices n timeline_steps) @ [Printf TotalTime]
                @ all_calls (for_devices n (concurrency_steps n))
                @ all_calls (for_devices n read_steps) @ [Printf Verdict]
                @ all_calls (for_devices n cleanup_steps) @ [])"
    by (rule stage_block [where k' = 2]) (use s8 in \<open>auto dest: stage_of_loop\<close>)
  from s9 show ?thesis unfolding main_calls by simp
qed

lemma main_calls_stage: "c \<in> set (all_calls (main_steps n)) \<Longrightarrow> 1 \<le> stage c"
  unfolding main_calls using stage_of_loop [of c n] by auto


lemma exec_calls:
  assumes "c \<in> set (fst (exec status steps))"
  shows "c \<in> set (all_calls steps) \<or> (\<exists>i. c = GetProgramBuildInfo i)"
  using exec_shape [of status steps]
proof
  assume "prefix (fst (exec status steps)) (all_calls steps)"
  then show ?thesis using assms by (auto dest: set_mono_prefix)
next
  assume "\<exists>pre i. fst (exec status steps) = pre @ [BuildProgram i, GetProgramBuildInfo i]
            \<and> prefix (pre @ [BuildProgram i]) (all_calls steps)"
  then obtain pre i where tr: "fst (exec status steps) = pre @ [BuildProgram i, GetProgramBuildInfo i]"
    and p: "prefix (pre @ [BuildProgram i]) (all_calls steps)" by auto
  have "set (pre @ [BuildProgram i]) \<subseteq> set (all_calls steps)" using p by (rule set_mono_prefix)
  then show ?thesis using assms unfolding tr by auto
qed

lemma sorted_never_before:
  assumes "sorted (map stage tr)" "stage a < stage b" "a \<in> set tr"
  shows "never_before b a tr"
proof -
  from assms(3) obtain xs ys where tr: "tr = xs @ a # ys" and first: "a \<notin> set xs"
    by (auto dest: split_list_first)
  have "takeWhile (\<lambda>x. x \<noteq> a) (xs @ a # ys) = xs @ takeWhile (\<lambda>x. x \<noteq> a) (a # ys)"
    using first by (intro takeWhile_append2) auto
  then have before: "takeWhile (\<lambda>x. x \<noteq> a) tr = xs" unfolding tr by simp
  have "stage x \<le> stage a" if "x \<in> set xs" for x
    using assms(1) that unfolding tr by (simp add: sorted_append)
  then have "b \<notin> set xs" using assms(2) by fastforce
  then show ?thesis unfolding never_before_def before .
qed

lemma for_devices_split:
  assumes "i < n"
  shows "for_devices n body = for_devices i body @ body i @ concat (map body [Suc i..<n])"
proof -
  have "[0..<n] = [0..<i] @ i # [Suc i..<n]"
    using assms by (metis le_add1 less_imp_add_positive plus_nat.add_0 upt_add_eq_append upt_conv_Cons)
  then show ?thesis unfolding for_devices_def by simp
qed

subsection \<open>The order of the calls when no check fails\<close>

lemma in_main_calls:
  assumes "i < n"
  shows "BuildProgram i \<in> set (all_calls (main_steps n))"
    and "CreateBuffer i b \<in> set (all_calls (main_steps n))"
    and "EnqueueNDRangeKernel i \<in> set (all_calls (main_steps n))"
    and "WaitForEvents i \<in> set (all_calls (main_steps n))"
    and "GetEventProfilingInfo i p \<in> set (all_calls (main_steps n))"
    and "Printf (Timeline i) \<in> set (all_calls (main_steps n))"
    and "Printf TotalTime \<in> set (all_calls (main_steps n))"
    and "EnqueueReadBuffer i \<in> set (all_calls (main_steps n))"
    and "Printf Verdict \<in> set (all_calls (main_steps n))"
    and "ReleaseMemObject i b \<in> set (all_calls (main_steps n))"
    and "ReleaseKernel i \<in> set (all_calls (main_steps n))"
    and "ReleaseProgram i \<in> set (all_calls (main_steps n))"
    and "ReleaseCommandQueue i \<in> set (all_calls (main_steps n))"
    and "ReleaseContext i \<in> set (all_calls (main_steps n))"
    and "ReleaseEvent i \<in> set (all_calls (main_steps n))"
proof -
  have s: "c \<in> set (all_calls (setup_steps i)) \<Longrightarrow> c \<in> set (all_calls (main_steps n))" for c
    using assms by (auto simp: main_calls in_phase)
  have l: "c \<in> set (all_calls (launch_steps i)) \<Longrightarrow> c \<in> set (all_calls (main_steps n))" for c
    using assms by (auto simp: main_calls in_phase)
  have w: "c \<in> set (all_calls (wait_steps i)) \<Longrightarrow> c \<in> set (all_calls (main_steps n))" for c
    using assms by (auto simp: main_calls in_phase)
  have t: "c \<in> set (all_calls (timeline_steps i)) \<Longrightarrow> c \<in> set (all_calls (main_steps n))" for c
    using assms by (auto simp: main_calls in_phase)
  have r: "c \<in> set (all_calls (read_steps i)) \<Longrightarrow> c \<in> set (all_calls (main_steps n))" for c
    using assms by (auto simp: main_calls in_phase)
  have c: "c \<in> set (all_calls (cleanup_steps i)) \<Longrightarrow> c \<in> set (all_calls (main_steps n))" for c
    using assms by (auto simp: main_calls in_phase)
  show "BuildProgram i \<in> set (all_calls (main_steps n))" by (rule s) (simp add: setup_calls)
  show "CreateBuffer i b \<in> set (all_calls (main_steps n))"
    by (rule s, cases b) (simp_all add: setup_calls)
  show "EnqueueNDRangeKernel i \<in> set (all_calls (main_steps n))"
    by (rule l) (simp add: launch_calls)
  show "WaitForEvents i \<in> set (all_calls (main_steps n))" by (rule w) (simp add: wait_calls)
  show "GetEventProfilingInfo i p \<in> set (all_calls (main_steps n))"
    by (rule t, cases p) (simp_all add: timeline_calls)
  show "Printf (Timeline i) \<in> set (all_calls (main_steps n))"
    by (rule t) (simp add: timeline_calls)
  show "Printf TotalTime \<in> set (all_calls (main_steps n))" unfolding main_calls by simp
  show "EnqueueReadBuffer i \<in> set (all_calls (main_steps n))" by (rule r) (simp add: read_calls)
  show "Printf Verdict \<in> set (all_calls (main_steps n))" unfolding main_calls by simp
  show "ReleaseMemObject i b \<in> set (all_calls (main_steps n))"
    by (rule c, cases b) (simp_all add: cleanup_calls)
  show "ReleaseKernel i \<in> set (all_calls (main_steps n))" by (rule c) (simp add: cleanup_calls)
  show "ReleaseProgram i \<in> set (all_calls (main_steps n))" by (rule c) (simp add: cleanup_calls)
  show "ReleaseCommandQueue i \<in> set (all_calls (main_steps n))"
    by (rule c) (simp add: cleanup_calls)
  show "ReleaseContext i \<in> set (all_calls (main_steps n))" by (rule c) (simp add: cleanup_calls)
  show "ReleaseEvent i \<in> set (all_calls (main_steps n))" by (rule c) (simp add: cleanup_calls)
qed

lemma buffers_after_build:
  assumes "i < n"
  shows "never_before (CreateBuffer i b) (BuildProgram i) (all_calls (main_steps n))"
proof -
  let ?build = "[Call (GetDeviceInfo i), Checked (CreateContext i) ''clCreateContext'',
      Checked (CreateCommandQueue i) ''clCreateCommandQueue'',
      Checked (CreateProgramWithSource i) ''clCreateProgramWithSource'', Build i]"
  let ?before = "for_devices i setup_steps @ ?build"
  let ?rest = "drop 5 (setup_steps i) @ concat (map setup_steps [Suc i..<n])
     @ for_devices n launch_steps
     @ for_devices n wait_steps
     @ for_devices n timeline_steps @ [Call (Printf TotalTime)]
     @ for_devices n (concurrency_steps n)
     @ for_devices n read_steps
     @ [Call (Printf Verdict)]
     @ for_devices n cleanup_steps"
  have "setup_steps i = ?build @ drop 5 (setup_steps i)" by (simp add: setup_steps_def)
  then have "for_devices n setup_steps
      = for_devices i setup_steps @ (?build @ drop 5 (setup_steps i))
        @ concat (map setup_steps [Suc i..<n])"
    using for_devices_split [OF assms, of setup_steps] by simp
  then have "main_steps n = ?before @ ?rest"
    unfolding main_steps_def by (simp only: append_assoc)
  then have m: "all_calls (main_steps n) = all_calls ?before @ all_calls ?rest"
    by (simp only: all_calls_append)
  have "CreateBuffer i b \<notin> set (all_calls (for_devices i setup_steps))"
    unfolding in_phase setup_calls by auto
  then have "CreateBuffer i b \<notin> set (all_calls ?before)"
    by (simp add: all_calls_append all_calls_Cons all_calls_Nil)
  moreover have "BuildProgram i \<in> set (all_calls ?before)"
    by (simp add: all_calls_append all_calls_Cons all_calls_Nil)
  ultimately show ?thesis unfolding m by (rule never_before_append)
qed

lemma report_after_timing:
  assumes "i < n"
  shows "never_before (Printf (Timeline i)) (GetEventProfilingInfo i p) (all_calls (main_steps n))"
proof -
  let ?queries = "[Call (GetEventProfilingInfo i CommandStart),
                   Call (GetEventProfilingInfo i CommandEnd)]"
  let ?before = "for_devices n setup_steps @ for_devices n launch_steps
                 @ for_devices n wait_steps @ for_devices i timeline_steps @ ?queries"
  let ?rest = "[Call (Printf (Timeline i))] @ concat (map timeline_steps [Suc i..<n])
     @ [Call (Printf TotalTime)]
     @ for_devices n (concurrency_steps n)
     @ for_devices n read_steps
     @ [Call (Printf Verdict)]
     @ for_devices n cleanup_steps"
  have "timeline_steps i = ?queries @ [Call (Printf (Timeline i))]"
    by (simp add: timeline_steps_def)
  then have "for_devices n timeline_steps
      = for_devices i timeline_steps @ (?queries @ [Call (Printf (Timeline i))])
        @ concat (map timeline_steps [Suc i..<n])"
    using for_devices_split [OF assms, of timeline_steps] by simp
  then have "main_steps n = ?before @ ?rest"
    unfolding main_steps_def by (simp only: append_assoc)
  then have m: "all_calls (main_steps n) = all_calls ?before @ all_calls ?rest"
    by (simp only: all_calls_append)
  have "Printf (Timeline i) \<notin> set (all_calls (for_devices i timeline_steps))"
    unfolding in_phase timeline_calls by auto
  then have "Printf (Timeline i) \<notin> set (all_calls ?before)"
    by (auto simp: all_calls_append all_calls_Cons all_calls_Nil in_phase setup_calls launch_calls wait_calls)
  moreover have "GetEventProfilingInfo i p \<in> set (all_calls ?before)"
    by (cases p) (simp_all add: all_calls_append all_calls_Cons all_calls_Nil)
  ultimately show ?thesis unfolding m by (rule never_before_append)
qed

lemma summary_after_timeline:
  assumes "i < n" "\<And>j. x \<noteq> Timeline j"
  shows "never_before (Printf x) (Printf (Timeline i)) (all_calls (main_steps n))"
    and "never_before (Printf x) (GetEventProfilingInfo i p) (all_calls (main_steps n))"
proof -
  let ?before = "all_calls (for_devices n setup_steps) @ all_calls (for_devices n launch_steps)
                 @ all_calls (for_devices n wait_steps) @ all_calls (for_devices n timeline_steps)"
  let ?rest = "[Printf TotalTime]
     @ all_calls (for_devices n (concurrency_steps n))
     @ all_calls (for_devices n read_steps)
     @ [Printf Verdict]
     @ all_calls (for_devices n cleanup_steps)"
  have m: "all_calls (main_steps n) = ?before @ ?rest" unfolding main_calls by simp
  have no: "Printf x \<notin> set ?before"
    using assms(2) by (auto simp: in_phase setup_calls launch_calls wait_calls timeline_calls)
  have "Printf (Timeline i) \<in> set (all_calls (timeline_steps i))"
    and "GetEventProfilingInfo i p \<in> set (all_calls (timeline_steps i))"
    by (cases p; simp add: timeline_calls)+
  then have a: "Printf (Timeline i) \<in> set ?before" and b: "GetEventProfilingInfo i p \<in> set ?before"
    using assms(1) by (auto simp: in_phase)
  show "never_before (Printf x) (Printf (Timeline i)) (all_calls (main_steps n))"
    unfolding m using no a by (rule never_before_append)
  show "never_before (Printf x) (GetEventProfilingInfo i p) (all_calls (main_steps n))"
    unfolding m using no b by (rule never_before_append)
qed


lemma launched_after_successful_setup:
  assumes "i < n" "EnqueueNDRangeKernel i \<in> set (fst (exec status (main_steps n)))"
  shows "status (BuildProgram i) = CL_SUCCESS \<and> status (CreateBuffer i b) = CL_SUCCESS"
proof -
  let ?rest = "for_devices n launch_steps
     @ for_devices n wait_steps
     @ for_devices n timeline_steps @ [Call (Printf TotalTime)]
     @ for_devices n (concurrency_steps n)
     @ for_devices n read_steps
     @ [Call (Printf Verdict)]
     @ for_devices n cleanup_steps"
  have m: "main_steps n = for_devices n setup_steps @ ?rest" by (simp add: main_steps_def)
  have no: "EnqueueNDRangeKernel i \<notin> set (all_calls (for_devices n setup_steps))"
    by (simp add: in_phase setup_calls)
  have passed: "snd (exec status (for_devices n setup_steps)) = None"
  proof (rule ccontr)
    assume "snd (exec status (for_devices n setup_steps)) \<noteq> None"
    then have "exec status (main_steps n) = exec status (for_devices n setup_steps)"
      unfolding m by (rule exec_append_failed)
    then have "EnqueueNDRangeKernel i \<in> set (fst (exec status (for_devices n setup_steps)))"
      using assms(2) by simp
    then show False using exec_calls [of "EnqueueNDRangeKernel i" status] no by blast
  qed
  have "Build i \<in> set (for_devices n setup_steps)"
    and "Checked (CreateBuffer i b) (''clCreateBuffer '' @ (case b of BufA \<Rightarrow> ''A'' | BufB \<Rightarrow> ''B'' | BufC \<Rightarrow> ''C''))
           \<in> set (for_devices n setup_steps)"
    unfolding for_devices_mem using assms(1)
    by (auto simp: setup_steps_def split: buffer.splits)
  then show ?thesis using exec_passed [OF passed] by blast
qed

subsection \<open>The whole run\<close>

lemma discovery_stage: "c \<in> set (discovery_calls ps q) \<Longrightarrow> stage c = 0"
  by (induction ps arbitrary: q) (auto simp: CHECK_ERROR_def split: if_splits)

lemma discovery_complete:
  assumes "collect_devices ps t = Inr nd" "k < length ps"
  shows "GetDeviceIDs (q + k) CountQuery \<in> set (discovery_calls ps q)"
  using assms
proof (induction ps arbitrary: t k q)
  case Nil
  then show ?case by simp
next
  case (Cons p ps)
  show ?case
  proof (cases k)
    case 0
    then show ?thesis by (simp add: CHECK_ERROR_def)
  next
    case (Suc k')
    from Cons.prems(1) obtain t' where "collect_devices ps t' = Inr nd"
      by (auto simp: CHECK_ERROR_def split: if_splits)
    moreover have "k' < length ps" using Cons.prems(2) Suc by simp
    ultimately have "GetDeviceIDs (Suc q + k') CountQuery \<in> set (discovery_calls ps (Suc q))"
      by (rule Cons.IH)
    moreover have "ids_status p = CL_SUCCESS"
      if "count_status p = CL_SUCCESS \<and> num_platform_devices p > 0"
      using Cons.prems(1) that by (auto simp: CHECK_ERROR_def split: if_splits)
    ultimately show ?thesis using Suc by (auto simp: CHECK_ERROR_def)
  qed
qed

lemma main_004_shape:
  "((\<forall>c\<in>set (fst (main_004 env status)). stage c = 0) \<and> snd (main_004 env status) \<noteq> None)
   \<or> (\<exists>nd. collect_devices (platforms env) 0 = Inr nd \<and> nd \<noteq> 0
        \<and> main_004 env status
            = ((GetPlatformIDs CountQuery # GetPlatformIDs IdsQuery
                  # discovery_calls (platforms env) 0)
               @ fst (exec status (main_steps (unat nd))),
               snd (exec status (main_steps (unat nd)))))"
  unfolding main_004_def
  by (auto simp: CHECK_ERROR_def read_kernel_source_def chunk_size_def Let_def
      dest: discovery_stage split: sum.splits)

lemma main_004_reaches:
  assumes "platform_count_status env = CL_SUCCESS" "platform_ids_status env = CL_SUCCESS"
    and "kernel_file_opens env" "collect_devices (platforms env) 0 = Inr nd" "nd \<noteq> 0"
  shows "snd (main_004 env status) = snd (exec status (main_steps (unat nd)))"
  using assms
  by (simp add: main_004_def CHECK_ERROR_def read_kernel_source_def chunk_size_def Let_def)

lemma main_004_distribution:
  assumes "main_distribution env = Inl e"
  shows "snd (main_004 env status) = Some e"
  using assms unfolding main_distribution_def main_004_def work_distribution_def
  by (auto simp: Let_def split: sum.splits)

lemma order_of_run:
  assumes "stage a \<noteq> 0" "stage b \<noteq> 0" "\<And>j. b \<noteq> GetProgramBuildInfo j"
    and "\<And>nd. collect_devices (platforms env) 0 = Inr nd
            \<Longrightarrow> never_before b a (all_calls (main_steps (unat nd)))"
  shows "never_before b a (main_trace env status)"
  using main_004_shape [of env status]
proof
  assume "(\<forall>c\<in>set (fst (main_004 env status)). stage c = 0) \<and> snd (main_004 env status) \<noteq> None"
  then have "b \<notin> set (main_trace env status)" using assms(2) unfolding main_trace_def by auto
  then show ?thesis by (rule never_before_absent)
next
  let ?found = "GetPlatformIDs CountQuery # GetPlatformIDs IdsQuery
                  # discovery_calls (platforms env) 0"
  assume "\<exists>nd. collect_devices (platforms env) 0 = Inr nd \<and> nd \<noteq> 0
        \<and> main_004 env status
            = (?found @ fst (exec status (main_steps (unat nd))),
               snd (exec status (main_steps (unat nd))))"
  then obtain nd where nd: "collect_devices (platforms env) 0 = Inr nd"
    and m: "main_004 env status
            = (?found @ fst (exec status (main_steps (unat nd))),
               snd (exec status (main_steps (unat nd))))"
    by blast
  have tr: "main_trace env status = ?found @ fst (exec status (main_steps (unat nd)))"
    unfolding main_trace_def m by simp
  have run: "never_before b a (fst (exec status (main_steps (unat nd))))"
    using assms(4) [OF nd] assms(3) by (rule never_before_exec)
  have "a \<notin> set ?found" and "b \<notin> set ?found"
    using assms(1,2) discovery_stage by fastforce+
  then have "never_before b a (?found @ fst (exec status (main_steps (unat nd))))
             = never_before b a (fst (exec status (main_steps (unat nd))))"
    by (rule never_before_later)
  then show ?thesis unfolding tr using run by simp
qed

lemma run_sorted: "sorted (map stage (main_trace env status))"
  using main_004_shape [of env status]
proof
  assume "(\<forall>c\<in>set (fst (main_004 env status)). stage c = 0) \<and> snd (main_004 env status) \<noteq> None"
  then have "\<And>c. c \<in> set (main_trace env status) \<Longrightarrow> stage c = 0"
    unfolding main_trace_def by blast
  then have "sorted (map stage (main_trace env status @ []))
               \<and> (\<forall>c\<in>set (main_trace env status @ []). 0 \<le> stage c)"
    by (rule stage_block [where k' = 0]) simp_all
  then show ?thesis by simp
next
  let ?found = "GetPlatformIDs CountQuery # GetPlatformIDs IdsQuery
                  # discovery_calls (platforms env) 0"
  assume "\<exists>nd. collect_devices (platforms env) 0 = Inr nd \<and> nd \<noteq> 0
        \<and> main_004 env status
            = (?found @ fst (exec status (main_steps (unat nd))),
               snd (exec status (main_steps (unat nd))))"
  then obtain nd :: cl_uint where m: "main_004 env status
            = (?found @ fst (exec status (main_steps (unat nd))),
               snd (exec status (main_steps (unat nd))))"
    by blast
  have tr: "main_trace env status = ?found @ fst (exec status (main_steps (unat nd)))"
    unfolding main_trace_def m by simp
  have "sorted (map stage (fst (exec status (main_steps (unat nd)))))"
    using main_calls_sorted by (rule sorted_stage_exec)
  moreover have "1 \<le> stage c" if "c \<in> set (fst (exec status (main_steps (unat nd))))" for c
    using exec_calls [OF that] main_calls_stage [of c] by auto
  moreover have "\<And>c. c \<in> set ?found \<Longrightarrow> stage c = 0"
    using discovery_stage by fastforce
  ultimately have "sorted (map stage (?found @ fst (exec status (main_steps (unat nd)))))
      \<and> (\<forall>c\<in>set (?found @ fst (exec status (main_steps (unat nd)))). 0 \<le> stage c)"
    by (intro stage_block [where k' = 1 and k = 0]) simp_all
  then show ?thesis unfolding tr by blast
qed

lemma enumeration_first:
  assumes "stage c \<noteq> 0"
  shows "never_before c (GetPlatformIDs IdsQuery) (main_trace env status)"
    and "q < length (platforms env)
         \<Longrightarrow> never_before c (GetDeviceIDs q CountQuery) (main_trace env status)"
proof -
  let ?found = "GetPlatformIDs CountQuery # GetPlatformIDs IdsQuery
                  # discovery_calls (platforms env) 0"
  have cases: "c \<notin> set (main_trace env status)
     \<or> (\<exists>nd D. collect_devices (platforms env) 0 = Inr nd
           \<and> main_trace env status = ?found @ D)"
    using main_004_shape [of env status] assms unfolding main_trace_def by auto
  have no: "c \<notin> set ?found" using assms discovery_stage by fastforce
  show "never_before c (GetPlatformIDs IdsQuery) (main_trace env status)"
    using cases
  proof
    assume "c \<notin> set (main_trace env status)"
    then show ?thesis by (rule never_before_absent)
  next
    assume "\<exists>nd D. collect_devices (platforms env) 0 = Inr nd
           \<and> main_trace env status = ?found @ D"
    then obtain D where tr: "main_trace env status = ?found @ D" by blast
    show ?thesis unfolding tr using no by (intro never_before_append) simp_all
  qed
  show "never_before c (GetDeviceIDs q CountQuery) (main_trace env status)"
    if q: "q < length (platforms env)"
    using cases
  proof
    assume "c \<notin> set (main_trace env status)"
    then show ?thesis by (rule never_before_absent)
  next
    assume "\<exists>nd D. collect_devices (platforms env) 0 = Inr nd
           \<and> main_trace env status = ?found @ D"
    then obtain nd D where nd: "collect_devices (platforms env) 0 = Inr nd"
      and tr: "main_trace env status = ?found @ D" by blast
    have "GetDeviceIDs (0 + q) CountQuery \<in> set (discovery_calls (platforms env) 0)"
      using nd q by (rule discovery_complete)
    then have "GetDeviceIDs q CountQuery \<in> set ?found" by simp
    then show ?thesis unfolding tr using no by (intro never_before_append)
  qed
qed


lemma release_stage:
  assumes "is_release r"
  shows "stage r = 7" and "r \<noteq> GetProgramBuildInfo j"
  using assms by (cases r; simp)+

text \<open>
  C6.  In every run of \<open>main\<close>, whatever the runtime answers:

  \<^item> the calls are made in the order of the parts of \<open>main\<close>: enumeration, set-up loop,
    launch loop, wait loop, timing and its reports, read-back, verdict, clean-up; no call
    of a later part precedes a call of an earlier one;
  \<^item> nothing is done with a device before the platform ids have been fetched and every
    platform has been asked for its devices.

  For each device \<open>i\<close> of the devices found:

  \<^item> its buffers are not created before its program has been built, and its kernel is not
    enqueued before \<open>clBuildProgram\<close> and the three \<open>clCreateBuffer\<close> calls for that device;
    where the kernel is enqueued these calls have returned \<open>CL_SUCCESS\<close>;
  \<^item> the kernel event is not waited on before the kernel has been enqueued, and no
    profiling time of the event is read before \<open>clWaitForEvents\<close> on it;
  \<^item> the timeline of the device is not printed before its times have been read, and the
    total time, the concurrency analysis and the verdict are not printed before the times
    of every device have been read and every timeline has been printed;
  \<^item> the verdict is not printed before the chunk of the device has been read back;
  \<^item> no object of any device is released before the chunk of device \<open>i\<close> has been read back,
    nor before the timeline, the total time and the verdict have been printed;
  \<^item> a run that reaches \<open>return 0\<close> has made every one of these calls, and a run in which
    every call succeeds and the kernel file opens reaches \<open>return 0\<close>.

  The set-up loop builds and allocates device by device and the timeline loop reads and
  prints device by device, so the order of building and allocating, and of timing and
  printing, is an order of the calls for one device.
\<close>

theorem call_order:
  "sorted (map stage (main_trace env status))
   \<and> (stage c \<noteq> 0 \<longrightarrow> never_before c (GetPlatformIDs IdsQuery) (main_trace env status))
   \<and> (stage c \<noteq> 0 \<and> q < length (platforms env) \<longrightarrow>
        never_before c (GetDeviceIDs q CountQuery) (main_trace env status))
   \<and> (collect_devices (platforms env) 0 = Inr num_devices \<and> i < unat num_devices \<longrightarrow>
        never_before (CreateBuffer i b) (BuildProgram i) (main_trace env status)
      \<and> never_before (EnqueueNDRangeKernel i) (BuildProgram i) (main_trace env status)
      \<and> never_before (EnqueueNDRangeKernel i) (CreateBuffer i b) (main_trace env status)
      \<and> (EnqueueNDRangeKernel i \<in> set (main_trace env status) \<longrightarrow>
           status (BuildProgram i) = CL_SUCCESS \<and> status (CreateBuffer i b) = CL_SUCCESS)
      \<and> never_before (WaitForEvents i) (EnqueueNDRangeKernel i) (main_trace env status)
      \<and> never_before (GetEventProfilingInfo i p) (WaitForEvents i) (main_trace env status)
      \<and> never_before (Printf (Timeline i)) (GetEventProfilingInfo i p) (main_trace env status)
      \<and> ((\<forall>j. x \<noteq> Timeline j) \<longrightarrow>
           never_before (Printf x) (GetEventProfilingInfo i p) (main_trace env status)
         \<and> never_before (Printf x) (Printf (Timeline i)) (main_trace env status))
      \<and> never_before (Printf Verdict) (EnqueueReadBuffer i) (main_trace env status)
      \<and> (is_release r \<longrightarrow>
           never_before r (EnqueueReadBuffer i) (main_trace env status)
         \<and> never_before r (Printf (Timeline i)) (main_trace env status)
         \<and> never_before r (Printf TotalTime) (main_trace env status)
         \<and> never_before r (Printf Verdict) (main_trace env status))
      \<and> (snd (main_004 env status) = None \<longrightarrow>
           set [GetPlatformIDs CountQuery, GetPlatformIDs IdsQuery,
                BuildProgram i, CreateBuffer i b, EnqueueNDRangeKernel i, WaitForEvents i,
                GetEventProfilingInfo i p, Printf (Timeline i), Printf TotalTime,
                EnqueueReadBuffer i, Printf Verdict,
                ReleaseMemObject i b, ReleaseKernel i, ReleaseProgram i,
                ReleaseCommandQueue i, ReleaseContext i, ReleaseEvent i]
           \<subseteq> set (main_trace env status))
      \<and> ((\<forall>c. status c = CL_SUCCESS) \<and> platform_count_status env = CL_SUCCESS
           \<and> platform_ids_status env = CL_SUCCESS \<and> kernel_file_opens env \<longrightarrow>
           snd (main_004 env status) = None))"
  (is "_ \<and> _ \<and> _ \<and> (_ \<longrightarrow> ?device)")
proof -
  let ?tr = "main_trace env status"
  let ?found = "GetPlatformIDs CountQuery # GetPlatformIDs IdsQuery
                  # discovery_calls (platforms env) 0"
  have parts: "sorted (map stage ?tr)" by (rule run_sorted)
  have e1: "stage c \<noteq> 0 \<longrightarrow> never_before c (GetPlatformIDs IdsQuery) ?tr"
    using enumeration_first(1) by blast
  have e2: "stage c \<noteq> 0 \<and> q < length (platforms env) \<longrightarrow>
        never_before c (GetDeviceIDs q CountQuery) ?tr"
    using enumeration_first(2) by blast
  have device: ?device
    if found: "collect_devices (platforms env) 0 = Inr num_devices"
      and i: "i < unat num_devices"
  proof -
    let ?full = "all_calls (main_steps (unat num_devices))"
    note mem = in_main_calls [OF i]
    have nonzero: "num_devices \<noteq> 0" using i by auto
    have run: "never_before y z ?tr"
      if "stage z \<noteq> 0" "stage y \<noteq> 0" "\<And>j. y \<noteq> GetProgramBuildInfo j"
        and full: "never_before y z ?full" for y z
      using that(1-3)
    proof (rule order_of_run)
      fix nd assume "collect_devices (platforms env) 0 = Inr nd"
      then have "nd = num_devices" using found by simp
      then show "never_before y z (all_calls (main_steps (unat nd)))" using full by simp
    qed
    have staged: "never_before y z ?full" if "stage z < stage y" "z \<in> set ?full" for y z
      using main_calls_sorted that by (rule sorted_never_before)
    have d1: "never_before (CreateBuffer i b) (BuildProgram i) ?tr"
      by (rule run) (simp_all add: buffers_after_build [OF i])
    have d2: "never_before (EnqueueNDRangeKernel i) (BuildProgram i) ?tr"
      by (rule run) (simp_all add: staged mem)
    have d3: "never_before (EnqueueNDRangeKernel i) (CreateBuffer i b) ?tr"
      by (rule run) (simp_all add: staged mem)
    have d4: "EnqueueNDRangeKernel i \<in> set ?tr \<longrightarrow>
           status (BuildProgram i) = CL_SUCCESS \<and> status (CreateBuffer i b) = CL_SUCCESS"
    proof
      assume launched: "EnqueueNDRangeKernel i \<in> set ?tr"
      have "\<not> (\<forall>c\<in>set (fst (main_004 env status)). stage c = 0)"
      proof
        assume "\<forall>c\<in>set (fst (main_004 env status)). stage c = 0"
        then have "stage (EnqueueNDRangeKernel i) = 0"
          using launched unfolding main_trace_def by (rule bspec)
        then show False by simp
      qed
      then obtain nd where nd: "collect_devices (platforms env) 0 = Inr nd"
        and m: "main_004 env status
            = (?found @ fst (exec status (main_steps (unat nd))),
               snd (exec status (main_steps (unat nd))))"
        using main_004_shape [of env status] by blast
      have "nd = num_devices" using nd found by simp
      then have "?tr = ?found @ fst (exec status (main_steps (unat num_devices)))"
        unfolding main_trace_def m by simp
      moreover have "EnqueueNDRangeKernel i \<notin> set ?found"
        using discovery_stage [of "EnqueueNDRangeKernel i"] by auto
      ultimately have "EnqueueNDRangeKernel i
          \<in> set (fst (exec status (main_steps (unat num_devices))))"
        using launched by simp
      with i show "status (BuildProgram i) = CL_SUCCESS \<and> status (CreateBuffer i b) = CL_SUCCESS"
        by (rule launched_after_successful_setup)
    qed
    have d5: "never_before (WaitForEvents i) (EnqueueNDRangeKernel i) ?tr"
      by (rule run) (simp_all add: staged mem)
    have d6: "never_before (GetEventProfilingInfo i p) (WaitForEvents i) ?tr"
      by (rule run) (simp_all add: staged mem)
    have d7: "never_before (Printf (Timeline i)) (GetEventProfilingInfo i p) ?tr"
      by (rule run) (simp_all add: report_after_timing [OF i])
    have d8: "(\<forall>j. x \<noteq> Timeline j) \<longrightarrow>
           never_before (Printf x) (GetEventProfilingInfo i p) ?tr
         \<and> never_before (Printf x) (Printf (Timeline i)) ?tr"
    proof
      assume x: "\<forall>j. x \<noteq> Timeline j"
      then have s: "stage (Printf x) \<noteq> 0" by (cases x) simp_all
      have "never_before (Printf x) (GetEventProfilingInfo i p) ?tr"
        using s by (intro run) (simp_all add: summary_after_timeline(2) [OF i] x)
      moreover have "never_before (Printf x) (Printf (Timeline i)) ?tr"
        using s by (intro run) (simp_all add: summary_after_timeline(1) [OF i] x)
      ultimately show "never_before (Printf x) (GetEventProfilingInfo i p) ?tr
         \<and> never_before (Printf x) (Printf (Timeline i)) ?tr" by (rule conjI)
    qed
    have d9: "never_before (Printf Verdict) (EnqueueReadBuffer i) ?tr"
      by (rule run) (simp_all add: staged mem)
    have d10: "is_release r \<longrightarrow>
           never_before r (EnqueueReadBuffer i) ?tr
         \<and> never_before r (Printf (Timeline i)) ?tr
         \<and> never_before r (Printf TotalTime) ?tr
         \<and> never_before r (Printf Verdict) ?tr"
    proof
      assume "is_release r"
      note r = release_stage [OF this]
      have "never_before r z ?tr" if "stage z \<noteq> 0" "stage z < 7" "z \<in> set ?full" for z
        using that r by (intro run staged) simp_all
      then show "never_before r (EnqueueReadBuffer i) ?tr
         \<and> never_before r (Printf (Timeline i)) ?tr
         \<and> never_before r (Printf TotalTime) ?tr
         \<and> never_before r (Printf Verdict) ?tr"
        using mem by simp
    qed
    have reach: "snd (main_004 env status) = snd (exec status (main_steps (unat num_devices)))"
      if "snd (main_004 env status) = None
          \<or> (platform_count_status env = CL_SUCCESS \<and> platform_ids_status env = CL_SUCCESS
              \<and> kernel_file_opens env)"
      using that main_004_shape [of env status] found nonzero
        main_004_reaches [of env num_devices status]
      by (elim disjE) auto
    have d11: "snd (main_004 env status) = None \<longrightarrow>
           set [GetPlatformIDs CountQuery, GetPlatformIDs IdsQuery,
                BuildProgram i, CreateBuffer i b, EnqueueNDRangeKernel i, WaitForEvents i,
                GetEventProfilingInfo i p, Printf (Timeline i), Printf TotalTime,
                EnqueueReadBuffer i, Printf Verdict,
                ReleaseMemObject i b, ReleaseKernel i, ReleaseProgram i,
                ReleaseCommandQueue i, ReleaseContext i, ReleaseEvent i]
           \<subseteq> set ?tr"
    proof
      assume ended: "snd (main_004 env status) = None"
      then obtain nd where nd: "collect_devices (platforms env) 0 = Inr nd"
        and m: "main_004 env status
            = (?found @ fst (exec status (main_steps (unat nd))),
               snd (exec status (main_steps (unat nd))))"
        using main_004_shape [of env status] by blast
      have same: "nd = num_devices" using nd found by simp
      have "snd (exec status (main_steps (unat num_devices))) = None"
        using ended unfolding m same by simp
      then have "fst (exec status (main_steps (unat num_devices))) = ?full"
        by (rule exec_complete)
      then have "?tr = ?found @ ?full" unfolding main_trace_def m same by simp
      then show "set [GetPlatformIDs CountQuery, GetPlatformIDs IdsQuery,
                BuildProgram i, CreateBuffer i b, EnqueueNDRangeKernel i, WaitForEvents i,
                GetEventProfilingInfo i p, Printf (Timeline i), Printf TotalTime,
                EnqueueReadBuffer i, Printf Verdict,
                ReleaseMemObject i b, ReleaseKernel i, ReleaseProgram i,
                ReleaseCommandQueue i, ReleaseContext i, ReleaseEvent i]
           \<subseteq> set ?tr"
        using mem by simp
    qed
    have d12: "(\<forall>c. status c = CL_SUCCESS) \<and> platform_count_status env = CL_SUCCESS
           \<and> platform_ids_status env = CL_SUCCESS \<and> kernel_file_opens env \<longrightarrow>
           snd (main_004 env status) = None"
    proof
      assume ok: "(\<forall>c. status c = CL_SUCCESS) \<and> platform_count_status env = CL_SUCCESS
           \<and> platform_ids_status env = CL_SUCCESS \<and> kernel_file_opens env"
      then have "snd (main_004 env status) = snd (exec status (main_steps (unat num_devices)))"
        using found nonzero by (intro main_004_reaches) simp_all
      moreover have "snd (exec status (main_steps (unat num_devices))) = None"
        using ok by (intro exec_success) simp
      ultimately show "snd (main_004 env status) = None" by simp
    qed
    show ?thesis
      by (intro conjI) (fact d1 d2 d3 d4 d5 d6 d7 d8 d9 d10 d11 d12)+
  qed
  have "collect_devices (platforms env) 0 = Inr num_devices \<and> i < unat num_devices
          \<longrightarrow> ?device"
  proof
    assume "collect_devices (platforms env) 0 = Inr num_devices \<and> i < unat num_devices"
    then show ?device using device by (elim conjE)
  qed
  then show ?thesis by (rule conjI [OF parts conjI [OF e1 conjI [OF e2]]])
qed

text \<open>
  Two platforms, of which the first has no device for the program and the second has two,
  and a runtime that answers every other call with \<open>CL_SUCCESS\<close>.
\<close>

theorem call_order_witness:
  "snd (main_004 \<lparr>platform_count_status = 0, platform_ids_status = 0,
            platforms = [\<lparr>count_status = -1, num_platform_devices = 0, ids_status = 0\<rparr>,
                         \<lparr>count_status = 0, num_platform_devices = 2, ids_status = 0\<rparr>],
            kernel_file_opens = True\<rparr> (\<lambda>c. 0)) = None
   \<and> sorted (map stage (main_trace \<lparr>platform_count_status = 0, platform_ids_status = 0,
            platforms = [\<lparr>count_status = -1, num_platform_devices = 0, ids_status = 0\<rparr>,
                         \<lparr>count_status = 0, num_platform_devices = 2, ids_status = 0\<rparr>],
            kernel_file_opens = True\<rparr> (\<lambda>c. 0)))
   \<and> EnqueueNDRangeKernel 1 \<in> set (main_trace \<lparr>platform_count_status = 0, platform_ids_status = 0,
            platforms = [\<lparr>count_status = -1, num_platform_devices = 0, ids_status = 0\<rparr>,
                         \<lparr>count_status = 0, num_platform_devices = 2, ids_status = 0\<rparr>],
            kernel_file_opens = True\<rparr> (\<lambda>c. 0))
   \<and> ReleaseEvent 1 \<in> set (main_trace \<lparr>platform_count_status = 0, platform_ids_status = 0,
            platforms = [\<lparr>count_status = -1, num_platform_devices = 0, ids_status = 0\<rparr>,
                         \<lparr>count_status = 0, num_platform_devices = 2, ids_status = 0\<rparr>],
            kernel_file_opens = True\<rparr> (\<lambda>c. 0))
   \<and> never_before (CreateBuffer 1 BufC) (BuildProgram 1)
        (main_trace \<lparr>platform_count_status = 0, platform_ids_status = 0,
            platforms = [\<lparr>count_status = -1, num_platform_devices = 0, ids_status = 0\<rparr>,
                         \<lparr>count_status = 0, num_platform_devices = 2, ids_status = 0\<rparr>],
            kernel_file_opens = True\<rparr> (\<lambda>c. 0))
   \<and> never_before (GetEventProfilingInfo 1 CommandEnd) (WaitForEvents 1)
        (main_trace \<lparr>platform_count_status = 0, platform_ids_status = 0,
            platforms = [\<lparr>count_status = -1, num_platform_devices = 0, ids_status = 0\<rparr>,
                         \<lparr>count_status = 0, num_platform_devices = 2, ids_status = 0\<rparr>],
            kernel_file_opens = True\<rparr> (\<lambda>c. 0))
   \<and> never_before (Printf (Concurrency 0 1)) (GetEventProfilingInfo 1 CommandEnd)
        (main_trace \<lparr>platform_count_status = 0, platform_ids_status = 0,
            platforms = [\<lparr>count_status = -1, num_platform_devices = 0, ids_status = 0\<rparr>,
                         \<lparr>count_status = 0, num_platform_devices = 2, ids_status = 0\<rparr>],
            kernel_file_opens = True\<rparr> (\<lambda>c. 0))
   \<and> never_before (ReleaseMemObject 0 BufA) (EnqueueReadBuffer 1)
        (main_trace \<lparr>platform_count_status = 0, platform_ids_status = 0,
            platforms = [\<lparr>count_status = -1, num_platform_devices = 0, ids_status = 0\<rparr>,
                         \<lparr>count_status = 0, num_platform_devices = 2, ids_status = 0\<rparr>],
            kernel_file_opens = True\<rparr> (\<lambda>c. 0))
   \<and> never_before (EnqueueNDRangeKernel 0) (GetDeviceIDs 1 CountQuery)
        (main_trace \<lparr>platform_count_status = 0, platform_ids_status = 0,
            platforms = [\<lparr>count_status = -1, num_platform_devices = 0, ids_status = 0\<rparr>,
                         \<lparr>count_status = 0, num_platform_devices = 2, ids_status = 0\<rparr>],
            kernel_file_opens = True\<rparr> (\<lambda>c. 0))"
proof -
  let ?env = "\<lparr>platform_count_status = 0, platform_ids_status = 0,
            platforms = [\<lparr>count_status = -1, num_platform_devices = 0, ids_status = 0\<rparr>,
                         \<lparr>count_status = 0, num_platform_devices = 2, ids_status = 0\<rparr>],
            kernel_file_opens = True\<rparr>"
  have found: "collect_devices (platforms ?env) 0 = Inr 2"
    by (simp add: CL_SUCCESS_def CHECK_ERROR_def)
  have i: "(1 :: nat) < unat (2 :: cl_uint)" by simp
  show ?thesis
    using call_order [where env = ?env and status = "\<lambda>c. 0" and num_devices = 2 and i = 1
        and b = BufC and p = CommandEnd and x = "Concurrency 0 1"
        and r = "ReleaseMemObject 0 BufA" and c = "EnqueueNDRangeKernel 0" and q = 1]
      found i
    by (simp add: CL_SUCCESS_def)
qed

section \<open>Error handling: not every failed call ends the program\<close>

text \<open>
  C3 fails on example 000.  Two platforms; \<open>clGetDeviceIDs\<close> fails on the first with
  \<open>CL_DEVICE_NOT_FOUND\<close> (\<open>-1\<close>), the second has one device.  The program reports the
  failure, skips the first platform, enumerates the second and returns 0.
\<close>

theorem skipped_platform_counterexample:
  "main_000 \<lparr>count_status_000 = 0, ids_status_000 = 0,
      platforms_000 =
        [\<lparr>name_status = 0, vendor_status = 0, version_status = 0,
          device_count_status = -1, device_ids_status = 0, devices = []\<rparr>,
         \<lparr>name_status = 0, vendor_status = 0, version_status = 0,
          device_count_status = 0, device_ids_status = 0,
          devices = [\<lparr>device_name_status = 0, device_type_status = 0,
                      device_mem_status = 0, device_units_status = 0\<rparr>]\<rparr>]\<rparr>
   = ([Banner, FoundPlatforms 2,
       PlatformLine 0, Info ''Name'' True, Info ''Vendor'' True, Info ''Version'' True,
       Attempting, DevicesSkipped (-1),
       PlatformLine 1, Info ''Name'' True, Info ''Vendor'' True, Info ''Version'' True,
       Attempting, DevicesLine 1,
       DeviceLine 0, Info ''Name'' True, Shown ''Type'', Shown ''Global Memory'',
       Shown ''Compute Units'',
       Complete], 0)"
  by (simp add: main_000_def enumerate_platform_def enumerate_device_def CL_SUCCESS_def
      Let_def upt_rec [of 0] upt_rec [of "Suc 0"])

text \<open>
  C3 as amended.  A status other than \<open>CL_SUCCESS\<close> that is handed to \<open>checkError\<close> or
  to \<open>CHECK_ERROR\<close> ends the program with exit status 1 after a diagnostic, and every way
  the device part of example 004 stops early is an exit with status 1.  Example 000 returns
  1 exactly when one of the two \<open>clGetPlatformIDs\<close> calls fails or there is no platform;
  otherwise it returns 0 and prints its last line, whatever the device queries returned.
  On a platform whose counting \<open>clGetDeviceIDs\<close> fails it prints the skip notice and goes
  on to the next platform, and the discovery loop of example 004 passes over such a
  platform as well.
\<close>

theorem error_paths:
  "(err \<noteq> CL_SUCCESS \<longrightarrow> checkError err operation = Inl (Exit 1 (ErrorDuring operation err)))
   \<and> (err \<noteq> CL_SUCCESS \<longrightarrow> CHECK_ERROR err msg = Inl (Exit 1 (ErrorAt err msg)))
   \<and> (snd (exec status steps) = Some e \<longrightarrow> (\<exists>d. e = Exit 1 d))
   \<and> snd (main_000 rt) =
        (if count_status_000 rt \<noteq> CL_SUCCESS \<or> platforms_000 rt = []
            \<or> ids_status_000 rt \<noteq> CL_SUCCESS then 1 else 0)
   \<and> (snd (main_000 rt) = 0 \<longrightarrow> last (fst (main_000 rt)) = Complete)
   \<and> (device_count_status p0 \<noteq> CL_SUCCESS \<longrightarrow>
        enumerate_platform (i, p0)
          = [PlatformLine i, Info ''Name'' (name_status p0 = CL_SUCCESS),
             Info ''Vendor'' (vendor_status p0 = CL_SUCCESS),
             Info ''Version'' (version_status p0 = CL_SUCCESS),
             Attempting, DevicesSkipped (device_count_status p0)])
   \<and> (count_status p \<noteq> CL_SUCCESS \<longrightarrow>
        collect_devices (p # ps) total_devices = collect_devices ps total_devices)"
proof -
  have a: "snd (exec status steps) = Some e \<longrightarrow> (\<exists>d. e = Exit 1 d)"
    using exec_exit_1 by blast
  have b: "snd (main_000 rt) =
        (if count_status_000 rt \<noteq> CL_SUCCESS \<or> platforms_000 rt = []
            \<or> ids_status_000 rt \<noteq> CL_SUCCESS then 1 else 0)"
    by (simp add: main_000_def)
  have c: "snd (main_000 rt) = 0 \<longrightarrow> last (fst (main_000 rt)) = Complete"
    by (simp add: main_000_def)
  have d: "device_count_status p0 \<noteq> CL_SUCCESS \<longrightarrow>
        enumerate_platform (i, p0)
          = [PlatformLine i, Info ''Name'' (name_status p0 = CL_SUCCESS),
             Info ''Vendor'' (vendor_status p0 = CL_SUCCESS),
             Info ''Version'' (version_status p0 = CL_SUCCESS),
             Attempting, DevicesSkipped (device_count_status p0)]"
    by (simp add: enumerate_platform_def Let_def)
  show ?thesis using a b c d by (simp add: checkError_def CHECK_ERROR_def)
qed

text \<open>
  \<open>checkError\<close> and \<open>CHECK_ERROR\<close> with \<open>CL_OUT_OF_RESOURCES\<close> (\<open>-5\<close>); the device part
  of example 004 when \<open>clCreateContext\<close> fails for the first device; example 000 on a
  single platform whose counting call fails; and the discovery of example 004 over such
  a platform followed by a platform with two devices.
\<close>

theorem error_paths_witness:
  "checkError (-5) ''clCreateBuffer A'' = Inl (Exit 1 (ErrorDuring ''clCreateBuffer A'' (-5)))
   \<and> CHECK_ERROR (-5) ''clCreateBuffer A'' = Inl (Exit 1 (ErrorAt (-5) ''clCreateBuffer A''))
   \<and> snd (exec ((\<lambda>c. 0)(CreateContext 0 := -5)) (setup_steps 0))
        = Some (Exit 1 (ErrorAt (-5) ''clCreateContext''))
   \<and> snd (main_000 \<lparr>count_status_000 = 0, ids_status_000 = 0,
        platforms_000 = [\<lparr>name_status = 0, vendor_status = 0, version_status = 0,
          device_count_status = -1, device_ids_status = 0, devices = []\<rparr>]\<rparr>) = 0
   \<and> last (fst (main_000 \<lparr>count_status_000 = 0, ids_status_000 = 0,
        platforms_000 = [\<lparr>name_status = 0, vendor_status = 0, version_status = 0,
          device_count_status = -1, device_ids_status = 0, devices = []\<rparr>]\<rparr>)) = Complete
   \<and> collect_devices
        [\<lparr>count_status = -1, num_platform_devices = 0, ids_status = 0\<rparr>,
         \<lparr>count_status = 0, num_platform_devices = 2, ids_status = 0\<rparr>] 0 = Inr 2"
proof -
  have two: "collect_devices [\<lparr>count_status = 0, num_platform_devices = 2, ids_status = 0\<rparr>] 0
          = Inr 2"
    by (simp add: CL_SUCCESS_def CHECK_ERROR_def)
  have stop: "snd (exec ((\<lambda>c. 0)(CreateContext 0 := -5)) (setup_steps 0))
        = Some (Exit 1 (ErrorAt (-5) ''clCreateContext''))"
    by (simp add: setup_steps_def CHECK_ERROR_def CL_SUCCESS_def)
  show ?thesis
    using two stop
      error_paths [of "-5" "''clCreateBuffer A''" "''clCreateBuffer A''"
        "(\<lambda>c. 0)(CreateContext 0 := -5)" "setup_steps 0"
        "Exit 1 (ErrorAt (-5) ''clCreateContext'')"
        "\<lparr>count_status_000 = 0, ids_status_000 = 0,
          platforms_000 = [\<lparr>name_status = 0, vendor_status = 0, version_status = 0,
            device_count_status = -1, device_ids_status = 0, devices = []\<rparr>]\<rparr>"
        "\<lparr>name_status = 0, vendor_status = 0, version_status = 0,
          device_count_status = -1, device_ids_status = 0, devices = []\<rparr>" 0
        "\<lparr>count_status = -1, num_platform_devices = 0, ids_status = 0\<rparr>"
        "[\<lparr>count_status = 0, num_platform_devices = 2, ids_status = 0\<rparr>]" 0]
    by (simp add: CL_SUCCESS_def)
qed

section \<open>Example 006: \<open>matmulSerial\<close> computes the reference product\<close>

lemma for_loop_append:
  "for_loop body (xs @ ys) s =
     (case for_loop body xs s of Inl e \<Rightarrow> Inl e | Inr s' \<Rightarrow> for_loop body ys s')"
  by (induction xs arbitrary: s) (auto split: sum.splits)

lemma for_loop_snoc:
  assumes "for_loop body xs s = Inr s'"
  shows "for_loop body (xs @ [x]) s = body x s'"
  using assms by (simp add: for_loop_append split: sum.splits)

lemma int_loop_nat:
  assumes "0 \<le> sint n"
  shows "int_loop n = map word_of_nat [0..<unat n]"
  using sint_nonneg_unat [OF assms] by (simp add: int_loop_def)

lemma index_word:
  assumes "i * n + x < 2147483648"
  shows "in_bounds (word_of_nat i * word_of_nat n + word_of_nat x :: c_int) xs = (i * n + x < length xs)"
    and "nat (sint (word_of_nat i * word_of_nat n + word_of_nat x :: c_int)) = i * n + x"
proof -
  have w: "(word_of_nat i * word_of_nat n + word_of_nat x :: c_int) = word_of_nat (i * n + x)"
    by simp
  show "in_bounds (word_of_nat i * word_of_nat n + word_of_nat x :: c_int) xs = (i * n + x < length xs)"
    unfolding w in_bounds_def using sint_of_nat_small [OF assms] by simp
  show "nat (sint (word_of_nat i * word_of_nat n + word_of_nat x :: c_int)) = i * n + x"
    unfolding w using sint_of_nat_small [OF assms] by simp
qed

lemma row_major_bound:
  assumes "i < m" "x < (n::nat)"
  shows "i * n + x < m * n"
proof -
  have "i * n + x < Suc i * n" using assms(2) by simp
  also have "\<dots> \<le> m * n" using assms(1) by (intro mult_le_mono1) simp
  finally show ?thesis .
qed

lemma load_row_major:
  assumes "i < m" "x < n" "m * n \<le> length xs" "m * n \<le> 2147483648"
  shows "load xs (word_of_nat i * word_of_nat n + word_of_nat x) = Inr (xs ! (i * n + x))"
proof -
  have b: "i * n + x < m * n" using assms(1,2) by (rule row_major_bound)
  then have s: "i * n + x < 2147483648" using assms(4) by linarith
  show ?thesis using index_word(1) [OF s, of xs] index_word(2) [OF s] b assms(3) by (simp add: load_def)
qed

lemma store_row_major:
  assumes "i < m" "x < n" "m * n \<le> length xs" "m * n \<le> 2147483648"
  shows "store (word_of_nat i * word_of_nat n + word_of_nat x) v xs = Inr (xs[i * n + x := v])"
proof -
  have b: "i * n + x < m * n" using assms(1,2) by (rule row_major_bound)
  then have s: "i * n + x < 2147483648" using assms(4) by linarith
  show ?thesis using index_word(1) [OF s, of xs] index_word(2) [OF s] b assms(3) by (simp add: store_def)
qed

lemma multiply_add_ok:
  assumes "i < m" "x < n" "j < k"
    and "m * n \<le> length A" "m * n \<le> 2147483648"
    and "n * k \<le> length B" "n * k \<le> 2147483648"
  shows "multiply_add ops A B (word_of_nat n) (word_of_nat k) (word_of_nat i) (word_of_nat j)
           (word_of_nat x) acc
         = Inr (fadd ops acc (fmul ops (A ! (i * n + x)) (B ! (x * k + j))))"
  using load_row_major [OF assms(1,2,4,5)] load_row_major [OF assms(2,3,6,7)]
  by (simp add: multiply_add_def)

lemma dot_loop_ok:
  assumes "i < m" "j < k" "t \<le> n"
    and "m * n \<le> length A" "m * n \<le> 2147483648"
    and "n * k \<le> length B" "n * k \<le> 2147483648"
  shows "for_loop (multiply_add ops A B (word_of_nat n) (word_of_nat k) (word_of_nat i)
                     (word_of_nat j)) (map word_of_nat [0..<t]) acc
         = Inr (foldl (\<lambda>acc x. fadd ops acc (fmul ops (A ! (i * n + x)) (B ! (x * k + j))))
                  acc [0..<t])"
  using assms(3)
proof (induction t)
  case 0
  then show ?case by simp
next
  case (Suc t)
  then have t: "t < n" and IH: "for_loop (multiply_add ops A B (word_of_nat n) (word_of_nat k)
                     (word_of_nat i) (word_of_nat j)) (map word_of_nat [0..<t]) acc
         = Inr (foldl (\<lambda>acc x. fadd ops acc (fmul ops (A ! (i * n + x)) (B ! (x * k + j))))
                  acc [0..<t])"
    by simp_all
  show ?case
    using for_loop_snoc [OF IH, of "word_of_nat t"]
      multiply_add_ok [OF assms(1) t assms(2,4-7), of ops]
    by simp
qed

lemma filled_step:
  assumes "p < length C"
  shows "(filled f p C)[p := f p] = filled f (Suc p) C"
proof -
  have d: "drop p C = C ! p # drop (Suc p) C" using assms by (simp add: Cons_nth_drop_Suc)
  have "(filled f p C)[p := f p] = map f [0..<p] @ (drop p C)[0 := f p]"
    by (simp add: filled_def list_update_append)
  also have "\<dots> = map f [0..<p] @ f p # drop (Suc p) C" by (subst d) simp
  finally show ?thesis by (simp add: filled_def)
qed

lemma length_filled: "p \<le> length C \<Longrightarrow> length (filled f p C) = length C"
  by (simp add: filled_def)


lemma int_loop_of_nat:
  assumes "n < 2147483648"
  shows "int_loop (word_of_nat n :: c_int) = map word_of_nat [0..<n]"
  using sint_of_nat_small [OF assms] by (simp add: int_loop_def)

lemma nonneg_word:
  assumes "0 \<le> sint (w :: c_int)"
  shows "unat w < 2147483648" and "word_of_nat (unat w) = w"
proof -
  have "int (unat w) = sint w" using sint_nonneg_unat [OF assms] assms by linarith
  moreover have "sint w < 2147483648" using sint_lt [of w] by simp
  ultimately show "unat w < 2147483648" by linarith
  show "word_of_nat (unat w) = w" by simp
qed

lemma cell_row_major:
  assumes "j < k"
  shows "cell ops A B n k (i * k + j) = dot_product ops A B n k i j"
  using assms by (simp add: cell_def)

lemma column_step:
  assumes "i < m" "j < k" "n < 2147483648"
    and "m * n \<le> length A" "m * n \<le> 2147483648"
    and "n * k \<le> length B" "n * k \<le> 2147483648"
    and "m * k \<le> length C" "m * k \<le> 2147483648"
  shows "(case for_loop (multiply_add ops A B (word_of_nat n) (word_of_nat k) (word_of_nat i)
                          (word_of_nat j)) (int_loop (word_of_nat n)) (fzero ops) of
            Inl e \<Rightarrow> Inl e
          | Inr acc \<Rightarrow> store (word_of_nat i * word_of_nat k + word_of_nat j) acc
                        (filled (cell ops A B n k) (i * k + j) C))
         = Inr (filled (cell ops A B n k) (Suc (i * k + j)) C)"
proof -
  let ?f = "cell ops A B n k"
  have dot: "for_loop (multiply_add ops A B (word_of_nat n) (word_of_nat k) (word_of_nat i)
                          (word_of_nat j)) (int_loop (word_of_nat n)) (fzero ops)
               = Inr (dot_product ops A B n k i j)"
    unfolding int_loop_of_nat [OF assms(3)] dot_product_def
    using assms(1,2) order_refl assms(4-7) by (rule dot_loop_ok)
  have p: "i * k + j < m * k" using assms(1,2) by (rule row_major_bound)
  then have pl: "i * k + j < length C" using assms(8) by linarith
  then have len: "m * k \<le> length (filled ?f (i * k + j) C)"
    using assms(8) by (simp add: length_filled)
  have "store (word_of_nat i * word_of_nat k + word_of_nat j) (dot_product ops A B n k i j)
          (filled ?f (i * k + j) C)
        = Inr ((filled ?f (i * k + j) C)[i * k + j := dot_product ops A B n k i j])"
    using assms(1,2) len assms(9) by (rule store_row_major)
  also have "(filled ?f (i * k + j) C)[i * k + j := dot_product ops A B n k i j]
               = filled ?f (Suc (i * k + j)) C"
    using filled_step [OF pl, of ?f] cell_row_major [OF assms(2), of ops A B n i] by simp
  finally show ?thesis by (simp add: dot)
qed

lemma column_loop:
  assumes "i < m" "t \<le> k" "n < 2147483648"
    and "m * n \<le> length A" "m * n \<le> 2147483648"
    and "n * k \<le> length B" "n * k \<le> 2147483648"
    and "m * k \<le> length C" "m * k \<le> 2147483648"
  shows "for_loop (\<lambda>j C.
           case for_loop (multiply_add ops A B (word_of_nat n) (word_of_nat k) (word_of_nat i) j)
                  (int_loop (word_of_nat n)) (fzero ops) of
             Inl e \<Rightarrow> Inl e
           | Inr acc \<Rightarrow> store (word_of_nat i * word_of_nat k + j) acc C)
          (map word_of_nat [0..<t]) (filled (cell ops A B n k) (i * k) C)
         = Inr (filled (cell ops A B n k) (i * k + t) C)"
  using assms(2)
proof (induction t)
  case 0
  then show ?case by simp
next
  case (Suc t)
  then have t: "t < k" by simp
  from Suc have IH: "for_loop (\<lambda>j C.
           case for_loop (multiply_add ops A B (word_of_nat n) (word_of_nat k) (word_of_nat i) j)
                  (int_loop (word_of_nat n)) (fzero ops) of
             Inl e \<Rightarrow> Inl e
           | Inr acc \<Rightarrow> store (word_of_nat i * word_of_nat k + j) acc C)
          (map word_of_nat [0..<t]) (filled (cell ops A B n k) (i * k) C)
         = Inr (filled (cell ops A B n k) (i * k + t) C)"
    by simp
  show ?case
    using for_loop_snoc [OF IH, of "word_of_nat t"]
      column_step [OF assms(1) t assms(3-9), of ops]
    by simp
qed

lemma row_loop:
  assumes "r \<le> m" "n < 2147483648" "k < 2147483648"
    and "m * n \<le> length A" "m * n \<le> 2147483648"
    and "n * k \<le> length B" "n * k \<le> 2147483648"
    and "m * k \<le> length C" "m * k \<le> 2147483648"
  shows "for_loop (\<lambda>i. for_loop (\<lambda>j C.
           case for_loop (multiply_add ops A B (word_of_nat n) (word_of_nat k) i j)
                  (int_loop (word_of_nat n)) (fzero ops) of
             Inl e \<Rightarrow> Inl e
           | Inr acc \<Rightarrow> store (i * word_of_nat k + j) acc C) (int_loop (word_of_nat k)))
          (map word_of_nat [0..<r]) C
         = Inr (filled (cell ops A B n k) (r * k) C)"
  using assms(1)
proof (induction r)
  case 0
  then show ?case by (simp add: filled_def)
next
  case (Suc r)
  then have r: "r < m" by simp
  from Suc have IH: "for_loop (\<lambda>i. for_loop (\<lambda>j C.
           case for_loop (multiply_add ops A B (word_of_nat n) (word_of_nat k) i j)
                  (int_loop (word_of_nat n)) (fzero ops) of
             Inl e \<Rightarrow> Inl e
           | Inr acc \<Rightarrow> store (i * word_of_nat k + j) acc C) (int_loop (word_of_nat k)))
          (map word_of_nat [0..<r]) C
         = Inr (filled (cell ops A B n k) (r * k) C)"
    by simp
  show ?case
    using for_loop_snoc [OF IH, of "word_of_nat r"]
      column_loop [OF r order_refl assms(2,4-9), of ops]
    by (simp add: int_loop_of_nat [OF assms(3)] add.commute)
qed


lemma filled_nth:
  assumes "p \<le> length C"
  shows "q < p \<Longrightarrow> filled f p C ! q = f q" and "p \<le> q \<Longrightarrow> filled f p C ! q = C ! q"
proof -
  show "q < p \<Longrightarrow> filled f p C ! q = f q" by (simp add: filled_def nth_append)
  show "p \<le> q \<Longrightarrow> filled f p C ! q = C ! q"
    using assms by (simp add: filled_def nth_append)
qed

text \<open>
  C7 as amended.  For \<open>M, N, K \<ge> 0\<close> such that none of \<open>M * N\<close>, \<open>N * K\<close>, \<open>M * K\<close> exceeds
  \<open>2^31\<close> (so that every index the loops compute is an \<open>int\<close>), with \<open>A\<close>, \<open>B\<close> and \<open>C\<close> of
  at least \<open>M * N\<close>, \<open>N * K\<close> and \<open>M * K\<close> elements: \<open>matmulSerial\<close> returns, \<open>C[i*K+j]\<close>
  is the accumulation from left to right, starting from \<open>0.0f\<close>, of the products
  \<open>A[i*N+k] * B[k*K+j]\<close> for \<open>k = 0, ..., N - 1\<close>, for every \<open>i < M\<close> and \<open>j < K\<close>, and
  no other element of \<open>C\<close> changes (the indices \<open>i*K+j\<close> are exactly those below \<open>M * K\<close>).
\<close>

theorem matmulSerial_reference:
  assumes "0 \<le> sint M" "0 \<le> sint N" "0 \<le> sint K"
    and "unat M * unat N \<le> 2147483648" "unat N * unat K \<le> 2147483648"
    and "unat M * unat K \<le> 2147483648"
    and "unat M * unat N \<le> length A" "unat N * unat K \<le> length B"
    and "unat M * unat K \<le> length C"
  shows "\<exists>C'. matmulSerial ops A B C M N K = Inr C'
           \<and> length C' = length C
           \<and> (\<forall>i<unat M. \<forall>j<unat K.
                 C' ! (i * unat K + j) = dot_product ops A B (unat N) (unat K) i j)
           \<and> (\<forall>p. unat M * unat K \<le> p \<longrightarrow> C' ! p = C ! p)"
proof -
  let ?m = "unat M" and ?n = "unat N" and ?k = "unat K"
  let ?C' = "filled (cell ops A B ?n ?k) (?m * ?k) C"
  note M = nonneg_word [OF assms(1)] and N = nonneg_word [OF assms(2)]
    and K = nonneg_word [OF assms(3)]
  have "for_loop (\<lambda>i. for_loop (\<lambda>j C.
           case for_loop (multiply_add ops A B (word_of_nat ?n) (word_of_nat ?k) i j)
                  (int_loop (word_of_nat ?n)) (fzero ops) of
             Inl e \<Rightarrow> Inl e
           | Inr acc \<Rightarrow> store (i * word_of_nat ?k + j) acc C) (int_loop (word_of_nat ?k)))
          (map word_of_nat [0..<?m]) C = Inr ?C'"
    using order_refl N(1) K(1) assms(7,4,8,5,9,6) by (rule row_loop)
  then have run: "matmulSerial ops A B C M N K = Inr ?C'"
    unfolding matmulSerial_def int_loop_nat [OF assms(1)] N(2) K(2) .
  have len: "length ?C' = length C" using assms(9) by (rule length_filled)
  have cells: "?C' ! (i * ?k + j) = dot_product ops A B ?n ?k i j" if "i < ?m" "j < ?k" for i j
  proof -
    have "i * ?k + j < ?m * ?k" using that by (rule row_major_bound)
    then have "?C' ! (i * ?k + j) = cell ops A B ?n ?k (i * ?k + j)"
      using filled_nth(1) [OF assms(9)] by blast
    then show ?thesis using cell_row_major [OF that(2)] by simp
  qed
  have rest: "?C' ! p = C ! p" if "?m * ?k \<le> p" for p
    using filled_nth(2) [OF assms(9) that] .
  show ?thesis using run len cells rest by blast
qed


lemma upt_two: "2 \<le> n \<Longrightarrow> [0..<n] = 0 # 1 # [2..<n]"
  by (simp add: upt_conv_Cons numeral_2_eq_2)

lemma second_column_faults:
  "for_loop (\<lambda>j C.
      case for_loop (multiply_add \<lparr>fadd = (+), fmul = (*), fzero = 0\<rparr> [1, 1]
                       (replicate 4294967294 1) 2 2147483647 0 j) [0, 1]
             (fzero \<lparr>fadd = (+), fmul = (*), fzero = (0 :: int)\<rparr>) of
        Inl e \<Rightarrow> Inl e
      | Inr acc \<Rightarrow> store (0 * 2147483647 + j) acc C)
     (0 # 1 # rest) (replicate 2147483647 0) = Inl OutOfBounds"
  by (simp add: multiply_add_def load_def store_def in_bounds_def)

lemma for_loop_single: "for_loop body [i] s = body i s"
  by (simp split: sum.splits)

lemma loops_of_counterexample:
  "int_loop (1 :: c_int) = [0]" "int_loop (2 :: c_int) = [0, 1]"
  "int_loop (2147483647 :: c_int) = 0 # 1 # map word_of_nat [2..<2147483647]"
proof -
  show "int_loop (1 :: c_int) = [0]" by (simp add: int_loop_def)
  show "int_loop (2 :: c_int) = [0, 1]" by (simp add: int_loop_def upt_two)
  have "nat (sint (2147483647 :: c_int)) = 2147483647" by simp
  then show "int_loop (2147483647 :: c_int) = 0 # 1 # map word_of_nat [2..<2147483647]"
    unfolding int_loop_def by (simp only: upt_two [of 2147483647]) (simp del: upt_rec_numeral)
qed

text \<open>
  C7 as stated fails where the index arithmetic leaves the range of \<open>int\<close>.  One row, two
  columns of \<open>A\<close>, \<open>K = 2147483647\<close>: for \<open>i = 0\<close>, \<open>j = 1\<close>, \<open>k = 1\<close> the index \<open>k * K + j\<close> is
  \<open>2147483648\<close>, which is not an \<open>int\<close>; the wrapped index is negative and the read of \<open>B\<close> is
  outside the array (\<open>B\<close> has \<open>N * K = 4294967294\<close> elements, and the element meant exists).
  \<open>C[1]\<close> is never written.
\<close>

theorem matmulSerial_overflow_counterexample:
  "matmulSerial \<lparr>fadd = (+), fmul = (*), fzero = 0\<rparr> [1, 1] (replicate 4294967294 1)
     (replicate 2147483647 (0 :: int)) 1 2 2147483647 = Inl OutOfBounds"
  unfolding matmulSerial_def loops_of_counterexample for_loop_single
  by (rule second_column_faults)


text \<open>A 2 by 3 and a 3 by 2 matrix of integers, and a \<open>C\<close> with one element to spare.\<close>

theorem matmulSerial_reference_witness:
  "matmulSerial \<lparr>fadd = (+), fmul = (*), fzero = 0\<rparr> [1, 2, 3, 4, 5, 6] [1, 0, 0, 1, 1, 1]
     [9, 9, 9, 9, 9 :: int] 2 3 2 = Inr [4, 5, 10, 11, 9]
   \<and> dot_product \<lparr>fadd = (+), fmul = (*), fzero = 0\<rparr> [1, 2, 3, 4, 5, 6]
       [1, 0, 0, 1, 1, 1 :: int] 3 2 1 1 = 11"
proof -
  let ?ops = "\<lparr>fadd = (+), fmul = (*), fzero = (0 :: int)\<rparr>"
  let ?A = "[1, 2, 3, 4, 5, 6 :: int]" and ?B = "[1, 0, 0, 1, 1, 1 :: int]"
  let ?C = "[9, 9, 9, 9, 9 :: int]"
  have run: "matmulSerial ?ops ?A ?B ?C 2 3 2 = Inr [4, 5, 10, 11, 9]"
    by code_simp
  have h: "0 \<le> sint (2 :: c_int)" "0 \<le> sint (3 :: c_int)"
    "unat (2 :: c_int) * unat (3 :: c_int) \<le> 2147483648"
    "unat (3 :: c_int) * unat (2 :: c_int) \<le> 2147483648"
    "unat (2 :: c_int) * unat (2 :: c_int) \<le> 2147483648"
    "unat (2 :: c_int) * unat (3 :: c_int) \<le> length ?A"
    "unat (3 :: c_int) * unat (2 :: c_int) \<le> length ?B"
    "unat (2 :: c_int) * unat (2 :: c_int) \<le> length ?C"
    by simp_all
  from matmulSerial_reference [OF h(1,2,1,3,4,5,6,7,8), of ?ops] run
  have "\<forall>i<2. \<forall>j<2. [4, 5, 10, 11, 9] ! (i * 2 + j) = dot_product ?ops ?A ?B 3 2 i j"
    by simp
  then have "[4, 5, 10, 11, 9 :: int] ! (1 * 2 + 1) = dot_product ?ops ?A ?B 3 2 1 1"
    by (metis one_less_numeral_iff semiring_norm(76))
  then have "dot_product ?ops ?A ?B 3 2 1 1 = 11" by simp
  then show ?thesis using run by simp
qed

section \<open>Example 006: the tiled kernel against the kernel \<open>matrix_multiply\<close>\<close>

text \<open>The lists \<open>[0..<256]\<close> of the slots stay folded in the proofs of this section.\<close>

declare upt_rec_numeral [simp del]

subsection \<open>One round of the tiled kernel\<close>

lemma for_loop_foldl:
  assumes "\<And>x acc. x < t \<Longrightarrow> body (word_of_nat x) acc = Inr (g acc x)"
  shows "for_loop body (map word_of_nat [0..<t]) acc = Inr (foldl g acc [0..<t])"
  using assms
proof (induction t)
  case 0
  then show ?case by simp
next
  case (Suc t)
  then have IH: "for_loop body (map word_of_nat [0..<t]) acc = Inr (foldl g acc [0..<t])"
    by simp
  show ?case using for_loop_snoc [OF IH, of "word_of_nat t"] Suc.prems [of t] by simp
qed

lemma sint_of_nat_less:
  assumes "x < 2147483648" "y < 2147483648"
  shows "(sint (word_of_nat x :: c_int) < sint (word_of_nat y :: c_int)) = (x < y)"
proof -
  have "sint (word_of_nat x :: c_int) = int x" "sint (word_of_nat y :: c_int) = int y"
    using sint_of_nat_small [OF assms(1)] sint_of_nat_small [OF assms(2)] by linarith+
  then show ?thesis by simp
qed

lemma tile_index:
  "TILE_SIZE * word_of_nat t + word_of_nat l = (word_of_nat (16 * t + l) :: c_int)"
  by (simp add: TILE_SIZE_def)

lemma load_tiles_ok:
  assumes "l0 < 16" "l1 < 16" "16 * t + 15 < 2147483648"
    and "16 * g0 + 15 < 2147483648" "16 * g1 + 15 < 2147483648"
    and "m < 2147483648" "n < 2147483648" "k < 2147483648"
    and "m * n \<le> length A" "m * n \<le> 2147483648"
    and "n * k \<le> length B" "n * k \<le> 2147483648"
  shows "load_tiles ops A B (word_of_nat m) (word_of_nat n) (word_of_nat k) (g0, g1)
           (word_of_nat t) (l0, l1)
         = Inr (tile_a ops A m n (16 * g0 + l0) (16 * t + l1),
                tile_b ops B n k (16 * g1 + l1) (16 * t + l0))"
proof -
  have row: "16 * g0 + l0 < 2147483648" and col: "16 * g1 + l1 < 2147483648"
    and tr: "16 * t + l1 < 2147483648" and tc: "16 * t + l0 < 2147483648"
    using assms(1-5) by linarith+
  have a: "(if sint (word_of_nat (16 * g0 + l0) :: c_int) < sint (word_of_nat m :: c_int)
              \<and> sint (word_of_nat (16 * t + l1) :: c_int) < sint (word_of_nat n :: c_int)
            then load A (word_of_nat (16 * g0 + l0) * word_of_nat n + word_of_nat (16 * t + l1))
            else Inr (fzero ops))
          = Inr (tile_a ops A m n (16 * g0 + l0) (16 * t + l1))"
    unfolding sint_of_nat_less [OF row assms(6)] sint_of_nat_less [OF tr assms(7)]
    using load_row_major [of "16 * g0 + l0" m "16 * t + l1" n A] assms(9,10)
    by (simp add: tile_a_def)
  have b: "(if sint (word_of_nat (16 * t + l0) :: c_int) < sint (word_of_nat n :: c_int)
              \<and> sint (word_of_nat (16 * g1 + l1) :: c_int) < sint (word_of_nat k :: c_int)
            then load B (word_of_nat (16 * t + l0) * word_of_nat k + word_of_nat (16 * g1 + l1))
            else Inr (fzero ops))
          = Inr (tile_b ops B n k (16 * g1 + l1) (16 * t + l0))"
    unfolding sint_of_nat_less [OF tc assms(7)] sint_of_nat_less [OF col assms(8)]
    using load_row_major [of "16 * t + l0" n "16 * g1 + l1" k B] assms(11,12)
    by (simp add: tile_b_def)
  show ?thesis
    unfolding load_tiles_def Let_def get_global_id_def fst_conv snd_conv tile_index
    by (simp only: a b sum.case)
qed


lemma local_ids_nth: "p < 256 \<Longrightarrow> local_ids ! p = (p div 16, p mod 16)"
  by (simp add: local_ids_def)

lemma length_local_ids: "length local_ids = 256"
  by (simp add: local_ids_def)

lemma slot_bounds: "p < 256 \<Longrightarrow> p div 16 < 16" "p mod (16 :: nat) < 16"
  by (simp_all add: less_mult_imp_div_less)

lemma slot_of: "b < 16 \<Longrightarrow> (a * 16 + b) div 16 = a" "b < 16 \<Longrightarrow> (a * 16 + b) mod 16 = (b :: nat)"
  by simp_all

lemma load_all_tiles:
  assumes "16 * t + 15 < 2147483648"
    and "16 * g0 + 15 < 2147483648" "16 * g1 + 15 < 2147483648"
    and "m < 2147483648" "n < 2147483648" "k < 2147483648"
    and "m * n \<le> length A" "m * n \<le> 2147483648"
    and "n * k \<le> length B" "n * k \<le> 2147483648"
  shows "for_each (load_tiles ops A B (word_of_nat m) (word_of_nat n) (word_of_nat k) (g0, g1)
                     (word_of_nat t)) local_ids
         = Inr (map (\<lambda>p. (tile_a ops A m n (16 * g0 + p div 16) (16 * t + p mod 16),
                           tile_b ops B n k (16 * g1 + p mod 16) (16 * t + p div 16)))
                  [0..<256])"
proof -
  have "for_each (load_tiles ops A B (word_of_nat m) (word_of_nat n) (word_of_nat k) (g0, g1)
                     (word_of_nat t)) local_ids
         = Inr (map (\<lambda>lid. (tile_a ops A m n (16 * g0 + fst lid) (16 * t + snd lid),
                             tile_b ops B n k (16 * g1 + snd lid) (16 * t + fst lid)))
                  local_ids)"
  proof (rule for_each_map)
    fix lid assume "lid \<in> set local_ids"
    then obtain p where p: "p < 256" and lid: "lid = (p div 16, p mod 16)"
      by (auto simp: local_ids_def)
    show "load_tiles ops A B (word_of_nat m) (word_of_nat n) (word_of_nat k) (g0, g1)
            (word_of_nat t) lid
          = Inr (tile_a ops A m n (16 * g0 + fst lid) (16 * t + snd lid),
                 tile_b ops B n k (16 * g1 + snd lid) (16 * t + fst lid))"
      unfolding lid fst_conv snd_conv
      using slot_bounds(1) [OF p] slot_bounds(2) assms by (rule load_tiles_ok)
  qed
  then show ?thesis by (simp add: local_ids_def comp_def)
qed

lemma tile_multiply_add_ok:
  assumes "l0 < 16" "l1 < 16" "x < 16"
  shows "tile_multiply_add ops (map fa [0..<256]) (map fb [0..<256]) (l0, l1) (word_of_nat x) acc
         = Inr (fadd ops acc (fmul ops (fa (l0 * 16 + x)) (fb (x * 16 + l1))))"
proof -
  have T: "TILE_SIZE = word_of_nat 16" by (simp add: TILE_SIZE_def)
  have a: "l0 * 16 + x < 16 * 16" using assms(1,3) by (rule row_major_bound)
  have b: "x * 16 + l1 < 16 * 16" using assms(3,2) by (rule row_major_bound)
  have la: "load (map fa [0..<256]) (word_of_nat l0 * word_of_nat 16 + word_of_nat x)
              = Inr (map fa [0..<256] ! (l0 * 16 + x))"
    using assms(1,3) by (rule load_row_major) simp_all
  have lb: "load (map fb [0..<256]) (word_of_nat x * word_of_nat 16 + word_of_nat l1)
              = Inr (map fb [0..<256] ! (x * 16 + l1))"
    using assms(3,2) by (rule load_row_major) simp_all
  show ?thesis
    unfolding tile_multiply_add_def Let_def fst_conv snd_conv T la lb
    using a b by simp
qed

lemma partial_sum_ok:
  assumes "l0 < 16" "l1 < 16"
  shows "partial_sum ops (map fa [0..<256]) (map fb [0..<256]) ((l0, l1), acc)
         = Inr (foldl (\<lambda>acc x. fadd ops acc (fmul ops (fa (l0 * 16 + x)) (fb (x * 16 + l1))))
                  acc [0..<16])"
proof -
  have "int_loop TILE_SIZE = map word_of_nat [0..<16]"
    using int_loop_of_nat [of 16] by (simp add: TILE_SIZE_def)
  then show ?thesis
    unfolding partial_sum_def fst_conv snd_conv
    using tile_multiply_add_ok [OF assms, of _ ops fa fb]
    by (simp only: for_loop_foldl)
qed


lemma item_sum_next:
  "item_sum ops A B m n k wg (16 * Suc t) p
     = foldl (\<lambda>acc x. fadd ops acc
                (fmul ops (tile_a ops A m n (16 * fst wg + p div 16) (16 * t + x))
                          (tile_b ops B n k (16 * snd wg + p mod 16) (16 * t + x))))
         (item_sum ops A B m n k wg (16 * t) p) [0..<16]"
proof -
  have "[0..<16 * Suc t] = [0..<16 * t] @ map (\<lambda>x. 16 * t + x) [0..<16]"
    using upt_add_eq_append [of 0 "16 * t" 16] map_add_upt [of "16 * t" 16]
    by (simp add: add.commute)
  then show ?thesis by (simp add: item_sum_def foldl_map)
qed

lemma tile_round_ok:
  assumes "16 * t + 15 < 2147483648"
    and "16 * g0 + 15 < 2147483648" "16 * g1 + 15 < 2147483648"
    and "m < 2147483648" "n < 2147483648" "k < 2147483648"
    and "m * n \<le> length A" "m * n \<le> 2147483648"
    and "n * k \<le> length B" "n * k \<le> 2147483648"
  shows "tile_round ops A B (word_of_nat m) (word_of_nat n) (word_of_nat k) (g0, g1)
           (word_of_nat t) (map (item_sum ops A B m n k (g0, g1) (16 * t)) [0..<256])
         = Inr (map (item_sum ops A B m n k (g0, g1) (16 * Suc t)) [0..<256])"
proof -
  let ?fa = "\<lambda>p. tile_a ops A m n (16 * g0 + p div 16) (16 * t + p mod 16)"
  let ?fb = "\<lambda>p. tile_b ops B n k (16 * g1 + p mod 16) (16 * t + p div 16)"
  let ?s = "item_sum ops A B m n k (g0, g1) (16 * t)"
  have tiles: "for_each (load_tiles ops A B (word_of_nat m) (word_of_nat n) (word_of_nat k)
                           (g0, g1) (word_of_nat t)) local_ids
                 = Inr (map (\<lambda>p. (?fa p, ?fb p)) [0..<256])"
    using assms by (rule load_all_tiles)
  have items: "zip local_ids (map ?s [0..<256]) = map (\<lambda>p. ((p div 16, p mod 16), ?s p)) [0..<256]"
    by (simp add: local_ids_def zip_map_map zip_same_conv_map)
  have sums: "for_each (partial_sum ops (map ?fa [0..<256]) (map ?fb [0..<256]))
                (map (\<lambda>p. ((p div 16, p mod 16), ?s p)) [0..<256])
              = Inr (map (\<lambda>item. item_sum ops A B m n k (g0, g1) (16 * Suc t)
                                    (fst (fst item) * 16 + snd (fst item)))
                       (map (\<lambda>p. ((p div 16, p mod 16), ?s p)) [0..<256]))"
  proof (rule for_each_map)
    fix item assume "item \<in> set (map (\<lambda>p. ((p div 16, p mod 16), ?s p)) [0..<256])"
    then obtain p where p: "p < 256" and item: "item = ((p div 16, p mod 16), ?s p)" by auto
    have l0: "p div 16 < 16" and l1: "p mod 16 < 16" using slot_bounds p by simp_all
    have slot: "p div 16 * 16 + p mod 16 = p" by simp
    show "partial_sum ops (map ?fa [0..<256]) (map ?fb [0..<256]) item
          = Inr (item_sum ops A B m n k (g0, g1) (16 * Suc t)
                   (fst (fst item) * 16 + snd (fst item)))"
      unfolding item fst_conv snd_conv slot partial_sum_ok [OF l0 l1] item_sum_next
      using l1 by (intro arg_cong [where f = Inr] foldl_cong) (simp_all add: slot_of)
  qed
  have same: "(\<lambda>p. item_sum ops A B m n k (g0, g1) (16 * Suc t) (p div 16 * 16 + p mod 16))
                = item_sum ops A B m n k (g0, g1) (16 * Suc t)"
    by simp
  show ?thesis
    unfolding tile_round_def tiles sum.case items
    using sums by (simp add: comp_def same)
qed

lemma tile_loop_ok:
  assumes "T \<le> numTiles" "16 * numTiles < 2147483648"
    and "16 * g0 + 15 < 2147483648" "16 * g1 + 15 < 2147483648"
    and "m < 2147483648" "n < 2147483648" "k < 2147483648"
    and "m * n \<le> length A" "m * n \<le> 2147483648"
    and "n * k \<le> length B" "n * k \<le> 2147483648"
  shows "for_loop (tile_round ops A B (word_of_nat m) (word_of_nat n) (word_of_nat k) (g0, g1))
           (map word_of_nat [0..<T]) (replicate 256 (fzero ops))
         = Inr (map (item_sum ops A B m n k (g0, g1) (16 * T)) [0..<256])"
  using assms(1)
proof (induction T)
  case 0
  have "map (item_sum ops A B m n k (g0, g1) (16 * 0)) [0..<256] = replicate 256 (fzero ops)"
    by (simp add: item_sum_def [abs_def] map_replicate_const)
  then show ?case by simp
next
  case (Suc T)
  then have IH: "for_loop (tile_round ops A B (word_of_nat m) (word_of_nat n) (word_of_nat k)
                             (g0, g1))
           (map word_of_nat [0..<T]) (replicate 256 (fzero ops))
         = Inr (map (item_sum ops A B m n k (g0, g1) (16 * T)) [0..<256])"
    by simp
  have "16 * T + 15 < 2147483648" using Suc.prems assms(2) by linarith
  then have "tile_round ops A B (word_of_nat m) (word_of_nat n) (word_of_nat k) (g0, g1)
           (word_of_nat T) (map (item_sum ops A B m n k (g0, g1) (16 * T)) [0..<256])
         = Inr (map (item_sum ops A B m n k (g0, g1) (16 * Suc T)) [0..<256])"
    using assms(3-11) by (rule tile_round_ok)
  then show ?case using for_loop_snoc [OF IH, of "word_of_nat T"] by simp
qed


lemma num_tiles:
  assumes "n \<le> 2147483632"
  shows "int_div (word_of_nat n + TILE_SIZE - 1) TILE_SIZE = word_of_nat ((n + 15) div 16)"
    and "int_loop (int_div (word_of_nat n + TILE_SIZE - 1) TILE_SIZE)
           = map word_of_nat [0..<(n + 15) div 16]"
proof -
  have w: "(word_of_nat n + TILE_SIZE - 1 :: c_int) = word_of_nat (n + 15)"
    by (simp add: TILE_SIZE_def)
  have "n + 15 < 2147483648" using assms by linarith
  then have s: "sint (word_of_nat (n + 15) :: c_int) = int (n + 15)"
    using sint_of_nat_small [of "n + 15"] by linarith
  have t: "sint TILE_SIZE = 16" by (simp add: TILE_SIZE_def)
  have "sgn (int (n + 15)) * sgn (16 :: int) * (\<bar>int (n + 15)\<bar> div \<bar>16\<bar>) = int ((n + 15) div 16)"
    by (simp add: zdiv_int)
  then show d: "int_div (word_of_nat n + TILE_SIZE - 1) TILE_SIZE = word_of_nat ((n + 15) div 16)"
    unfolding int_div_def w s t by simp
  have "(n + 15) div 16 < 2147483648" using assms by linarith
  then show "int_loop (int_div (word_of_nat n + TILE_SIZE - 1) TILE_SIZE)
           = map word_of_nat [0..<(n + 15) div 16]"
    unfolding d by (rule int_loop_of_nat)
qed

lemma padded_sum:
  fixes sum_ok :: "'a \<Rightarrow> bool"
  assumes "row < m" "col < k" "n \<le> len"
    and "sum_ok (fzero ops)" "\<And>s p. sum_ok s \<Longrightarrow> sum_ok (fadd ops s p)"
    and "\<And>s. sum_ok s \<Longrightarrow> fadd ops s (fmul ops (fzero ops) (fzero ops)) = s"
  shows "foldl (\<lambda>acc x. fadd ops acc
                  (fmul ops (tile_a ops A m n row x) (tile_b ops B n k col x)))
           (fzero ops) [0..<len]
         = dot_product ops A B n k row col"
proof -
  let ?g = "\<lambda>acc x. fadd ops acc (fmul ops (tile_a ops A m n row x) (tile_b ops B n k col x))"
  have ok: "sum_ok (foldl ?g (fzero ops) [0..<l])" for l
    by (induction l) (simp_all add: assms(4,5))
  have pad: "foldl ?g (fzero ops) [0..<n + d] = foldl ?g (fzero ops) [0..<n]" for d
  proof (induction d)
    case 0
    then show ?case by simp
  next
    case (Suc d)
    have "?g (foldl ?g (fzero ops) [0..<n + d]) (n + d) = foldl ?g (fzero ops) [0..<n + d]"
      using assms(6) [OF ok [of "n + d"]] by (simp add: tile_a_def tile_b_def)
    then show ?case using Suc by simp
  qed
  have "foldl ?g (fzero ops) [0..<n]
          = foldl (\<lambda>acc x. fadd ops acc (fmul ops (A ! (row * n + x)) (B ! (x * k + col))))
              (fzero ops) [0..<n]"
    using assms(1,2) by (intro foldl_cong) (simp_all add: tile_a_def tile_b_def)
  then show ?thesis
    using pad [of "len - n"] assms(3) by (simp add: dot_product_def)
qed

lemma for_loop_map: "for_loop body (map g xs) s = for_loop (\<lambda>x. body (g x)) xs s"
  by (induction xs arbitrary: s) (simp_all split: sum.splits)

lemma for_loop_cong:
  assumes "\<And>x s. x \<in> set xs \<Longrightarrow> body x s = body' x s"
  shows "for_loop body xs s = for_loop body' xs s"
  using assms by (induction xs arbitrary: s) (simp_all split: sum.splits)

lemma store_sum_is_naive:
  fixes sum_ok :: "'a \<Rightarrow> bool"
  assumes "p < 256" "n \<le> len"
    and "16 * g0 + 15 < 2147483648" "16 * g1 + 15 < 2147483648"
    and "m < 2147483648" "n < 2147483648" "k < 2147483648"
    and "m * n \<le> length A" "m * n \<le> 2147483648"
    and "n * k \<le> length B" "n * k \<le> 2147483648"
    and "sum_ok (fzero ops)" "\<And>s p. sum_ok s \<Longrightarrow> sum_ok (fadd ops s p)"
    and "\<And>s. sum_ok s \<Longrightarrow> fadd ops s (fmul ops (fzero ops) (fzero ops)) = s"
  shows "store_sum (word_of_nat m) (word_of_nat k) (g0, g1)
           ((p div 16, p mod 16), item_sum ops A B m n k (g0, g1) len p) C
         = matrix_multiply ops A B (word_of_nat m) (word_of_nat n) (word_of_nat k)
             (get_global_id (g0, g1) (p div 16, p mod 16)) C"
proof -
  let ?row = "16 * g0 + p div 16" and ?col = "16 * g1 + p mod 16"
  have l0: "p div 16 < 16" and l1: "p mod 16 < 16" using slot_bounds assms(1) by simp_all
  have row: "?row < 2147483648" and col: "?col < 2147483648"
    using l0 l1 assms(3,4) by linarith+
  define R :: c_int where "R = word_of_nat ?row"
  define Q :: c_int where "Q = word_of_nat ?col"
  have tr: "(sint R < sint (word_of_nat m :: c_int)) = (?row < m)"
    unfolding R_def using row assms(5) by (rule sint_of_nat_less)
  have tc: "(sint Q < sint (word_of_nat k :: c_int)) = (?col < k)"
    unfolding Q_def using col assms(7) by (rule sint_of_nat_less)
  have tiled: "store_sum (word_of_nat m) (word_of_nat k) (g0, g1)
           ((p div 16, p mod 16), item_sum ops A B m n k (g0, g1) len p) C
         = (if ?row < m \<and> ?col < k
            then store (R * word_of_nat k + Q) (item_sum ops A B m n k (g0, g1) len p) C
            else Inr C)"
    unfolding tr [symmetric] tc [symmetric]
    unfolding store_sum_def get_global_id_def Let_def fst_conv snd_conv R_def Q_def
    by (rule refl)
  have naive: "matrix_multiply ops A B (word_of_nat m) (word_of_nat n) (word_of_nat k)
             (get_global_id (g0, g1) (p div 16, p mod 16)) C
         = (if ?row < m \<and> ?col < k
            then (case for_loop (multiply_add ops A B (word_of_nat n) (word_of_nat k) R Q)
                         (int_loop (word_of_nat n)) (fzero ops) of
                    Inl e \<Rightarrow> Inl e
                  | Inr acc \<Rightarrow> store (R * word_of_nat k + Q) acc C)
            else Inr C)"
    unfolding tr [symmetric] tc [symmetric]
    unfolding matrix_multiply_def get_global_id_def Let_def fst_conv snd_conv R_def Q_def
    by (rule refl)
  show ?thesis
  proof (cases "?row < m \<and> ?col < k")
    case False
    show ?thesis
      apply (subst tiled)
      apply (subst naive)
      unfolding if_not_P [OF False]
      by (rule refl)
  next
    case True
    then have r: "?row < m" and c: "?col < k" by simp_all
    have dot: "for_loop (multiply_add ops A B (word_of_nat n) (word_of_nat k) R Q)
                 (int_loop (word_of_nat n)) (fzero ops)
               = Inr (dot_product ops A B n k ?row ?col)"
      unfolding int_loop_of_nat [OF assms(6)] dot_product_def R_def Q_def
      using r c order_refl assms(8-11) by (rule dot_loop_ok)
    have s: "item_sum ops A B m n k (g0, g1) len p = dot_product ops A B n k ?row ?col"
      unfolding item_sum_def fst_conv snd_conv
      using r c assms(2,12-14) by (rule padded_sum)
    show ?thesis
      apply (subst tiled)
      apply (subst naive)
      unfolding if_P [OF True] dot s
      by simp
  qed
qed

text \<open>
  C4 as amended.  For \<open>M, N, K \<ge> 0\<close> with \<open>N \<le> 2^31 - 16\<close> (so that \<open>N + TILE_SIZE - 1\<close> is
  an \<open>int\<close>), \<open>M * N\<close> and \<open>N * K\<close> at most \<open>2^31\<close> (so that the indices into \<open>A\<close> and \<open>B\<close> are),
  \<open>A\<close> and \<open>B\<close> of at least \<open>M * N\<close> and \<open>N * K\<close> elements, and a work-group whose global ids
  are \<open>int\<close>s: the work-group of \<open>matrix_multiply_tiled\<close> leaves in \<open>C\<close> exactly what the
  kernel \<open>matrix_multiply\<close> leaves there when it is run by the work items with the same global
  ids, whatever \<open>C\<close> held before.  \<open>matrix_multiply\<close> adds the products
  \<open>A[row*N+i] * B[i*K+col]\<close> for \<open>i = 0, ..., N - 1\<close> in this order, and \<open>+\<close> and \<open>*\<close> are
  arbitrary operations here, so the tiled kernel adds the same products in the same order.
  The tiled kernel adds \<open>0.0f * 0.0f\<close> for each position from \<open>N\<close> up to the next multiple of
  16; the last hypothesis says that this leaves a sum unchanged, as it does for the sums of
  \<open>float\<close>s that start from \<open>0.0f\<close>.
\<close>

theorem tiled_refines_naive:
  assumes "0 \<le> sint M" "0 \<le> sint N" "0 \<le> sint K"
    and "unat N \<le> 2147483632"
    and "16 * fst wg + 15 < 2147483648" "16 * snd wg + 15 < 2147483648"
    and "unat M * unat N \<le> length A" "unat M * unat N \<le> 2147483648"
    and "unat N * unat K \<le> length B" "unat N * unat K \<le> 2147483648"
    and "\<And>s. accumulated ops s \<Longrightarrow> fadd ops s (fmul ops (fzero ops) (fzero ops)) = s"
  shows "matrix_multiply_tiled ops A B M N K wg C = matrix_multiply_group ops A B M N K wg C"
proof -
  obtain g0 g1 where wg: "wg = (g0, g1)" by (cases wg)
  define m n k where "m = unat M" and "n = unat N" and "k = unat K"
  have M: "M = word_of_nat m" and m: "m < 2147483648"
    unfolding m_def using nonneg_word [OF assms(1)] by simp_all
  have N: "N = word_of_nat n" and n: "n < 2147483648"
    unfolding n_def using nonneg_word [OF assms(2)] by simp_all
  have K: "K = word_of_nat k" and k: "k < 2147483648"
    unfolding k_def using nonneg_word [OF assms(3)] by simp_all
  have n': "n \<le> 2147483632" using assms(4) by (simp add: n_def)
  have g: "16 * g0 + 15 < 2147483648" "16 * g1 + 15 < 2147483648"
    using assms(5,6) by (simp_all add: wg)
  have sizes: "m * n \<le> length A" "m * n \<le> 2147483648" "n * k \<le> length B" "n * k \<le> 2147483648"
    using assms(7-10) by (simp_all add: m_def n_def k_def)
  define T where "T = (n + 15) div 16"
  have T: "16 * T < 2147483648" and nT: "n \<le> 16 * T"
    unfolding T_def using n' by linarith+
  define s where "s = item_sum ops A B m n k (g0, g1) (16 * T)"
  have rounds: "for_loop (tile_round ops A B M N K wg)
                  (int_loop (int_div (N + TILE_SIZE - 1) TILE_SIZE)) (replicate 256 (fzero ops))
                = Inr (map s [0..<256])"
    unfolding M N K wg num_tiles(2) [OF n'] T_def [symmetric] s_def
    using order_refl T g m n k sizes by (rule tile_loop_ok)
  have items: "zip local_ids (map s [0..<256]) = map (\<lambda>p. ((p div 16, p mod 16), s p)) [0..<256]"
    by (simp add: local_ids_def zip_map_map zip_same_conv_map)
  have store: "store_sum M K wg ((p div 16, p mod 16), s p) C'
               = matrix_multiply ops A B M N K (get_global_id wg (p div 16, p mod 16)) C'"
    if "p \<in> set [0..<256]" for p C'
  proof -
    from that have p: "p < 256" by simp
    show ?thesis
      unfolding M N K wg s_def
      using p nT g m n k sizes accumulated.start accumulated.add assms(11)
      by (rule store_sum_is_naive)
  qed
  have "for_loop (store_sum M K wg) (zip local_ids (map s [0..<256])) C
        = for_loop (\<lambda>p. store_sum M K wg ((p div 16, p mod 16), s p)) [0..<256] C"
    unfolding items by (rule for_loop_map)
  also have "\<dots> = for_loop (\<lambda>p. matrix_multiply ops A B M N K (get_global_id wg (p div 16, p mod 16)))
                     [0..<256] C"
    using store by (rule for_loop_cong)
  also have "\<dots> = matrix_multiply_group ops A B M N K wg C"
    unfolding matrix_multiply_group_def local_ids_def by (rule for_loop_map [symmetric])
  finally show ?thesis
    unfolding matrix_multiply_tiled_def Let_def rounds sum.case .
qed

text \<open>
  One row, 17 columns of \<open>A\<close>, one column of \<open>B\<close>: two rounds, the second one with 15
  positions outside the matrices.  \<open>C\<close> has one element to spare.
\<close>

theorem tiled_refines_naive_witness:
  "matrix_multiply_tiled \<lparr>fadd = (+), fmul = (*), fzero = 0\<rparr>
     [1, 2, 3, 4, 5, 6, 7, 8, 9, 10, 11, 12, 13, 14, 15, 16, 17]
     [1, 2, 3, 4, 5, 6, 7, 8, 9, 10, 11, 12, 13, 14, 15, 16, 17] 1 17 1 (0, 0) [9, 9 :: int]
   = Inr [1785, 9]"
proof -
  let ?ops = "\<lparr>fadd = (+), fmul = (*), fzero = (0 :: int)\<rparr>"
  let ?A = "[1, 2, 3, 4, 5, 6, 7, 8, 9, 10, 11, 12, 13, 14, 15, 16, 17 :: int]"
  have naive: "matrix_multiply_group ?ops ?A ?A 1 17 1 (0, 0) [9, 9] = Inr [1785, 9]"
    by code_simp
  have h: "0 \<le> sint (1 :: c_int)" "0 \<le> sint (17 :: c_int)" "unat (17 :: c_int) \<le> 2147483632"
    "16 * fst (0 :: nat, 0 :: nat) + 15 < 2147483648"
    "16 * snd (0 :: nat, 0 :: nat) + 15 < 2147483648"
    "unat (1 :: c_int) * unat (17 :: c_int) \<le> length ?A"
    "unat (1 :: c_int) * unat (17 :: c_int) \<le> 2147483648"
    "unat (17 :: c_int) * unat (1 :: c_int) \<le> length ?A"
    "unat (17 :: c_int) * unat (1 :: c_int) \<le> 2147483648"
    "\<And>s. accumulated ?ops s \<Longrightarrow> fadd ?ops s (fmul ?ops (fzero ?ops) (fzero ?ops)) = s"
    by simp_all
  show ?thesis
    using tiled_refines_naive [OF h(1,2,1,3,4,5,6,7,8,9,10), of "[9, 9]"] naive by simp
qed

subsection \<open>Where \<open>N + TILE_SIZE - 1\<close> is not an \<open>int\<close>\<close>

lemma tiled_overflow:
  "matrix_multiply_tiled \<lparr>fadd = (+), fmul = (*), fzero = 0\<rparr> A B 1 2147483647 1 (0, 0) [9 :: int]
   = Inr [0]"
  by code_simp

lemma for_loop_skip:
  assumes "\<And>x s. x \<in> set xs \<Longrightarrow> body x s = Inr s"
  shows "for_loop body xs s = Inr s"
  using assms by (induction xs) simp_all

lemma sum_of_ones:
  assumes "t \<le> n"
  shows "foldl (\<lambda>acc x. fadd \<lparr>fadd = (+), fmul = (*), fzero = 0\<rparr> acc
                  (fmul \<lparr>fadd = (+), fmul = (*), fzero = 0\<rparr>
                     (replicate n (1 :: int) ! (0 * n + x)) (replicate n 1 ! (x * 1 + 0))))
           0 [0..<t] = int t"
  using assms by (induction t) simp_all

lemma naive_ones:
  assumes "n < 2147483648"
  shows "matrix_multiply_group \<lparr>fadd = (+), fmul = (*), fzero = 0\<rparr> (replicate n 1)
           (replicate n 1) 1 (word_of_nat n) 1 (0, 0) [c] = Inr [int n]"
proof -
  let ?ops = "\<lparr>fadd = (+), fmul = (*), fzero = (0 :: int)\<rparr>"
  let ?A = "replicate n (1 :: int)"
  let ?run = "\<lambda>lid. matrix_multiply ?ops ?A ?A 1 (word_of_nat n) 1 (get_global_id (0, 0) lid)"
  have "for_loop (multiply_add ?ops ?A ?A (word_of_nat n) (word_of_nat 1) (word_of_nat 0)
                    (word_of_nat 0)) (map word_of_nat [0..<n]) 0
        = Inr (foldl (\<lambda>acc x. fadd ?ops acc (fmul ?ops (?A ! (0 * n + x)) (?A ! (x * 1 + 0))))
                 0 [0..<n])"
    using assms by (intro dot_loop_ok [where m = 1]) simp_all
  then have dot: "for_loop (multiply_add ?ops ?A ?A (word_of_nat n) 1 0 0) (int_loop (word_of_nat n)) 0
                  = Inr (int n)"
    unfolding sum_of_ones [OF order_refl] int_loop_of_nat [OF assms] by simp
  have first: "?run (0, 0) [c] = Inr [int n]"
    unfolding matrix_multiply_def get_global_id_def Let_def fst_conv snd_conv
    by (simp add: dot store_def in_bounds_def)
  have rest: "?run lid C = Inr C" if "lid \<in> set (map (\<lambda>p. (p div 16, p mod 16)) [1..<256])" for lid C
  proof -
    from that obtain p where p: "1 \<le> p" "p < 256" and lid: "lid = (p div 16, p mod 16)" by auto
    have r: "(sint (word_of_nat (p div 16) :: c_int) < sint (word_of_nat 1 :: c_int)) = (p div 16 < 1)"
      using p by (intro sint_of_nat_less) simp_all
    have c: "(sint (word_of_nat (p mod 16) :: c_int) < sint (word_of_nat 1 :: c_int)) = (p mod 16 < 1)"
      by (intro sint_of_nat_less) simp_all
    have "\<not> (p div 16 < 1 \<and> p mod 16 < 1)" using p by presburger
    then have neg: "\<not> (sint (word_of_nat (16 * 0 + p div 16) :: c_int) < sint (1 :: c_int)
                 \<and> sint (word_of_nat (16 * 0 + p mod 16) :: c_int) < sint (1 :: c_int))"
      using r c by simp
    show ?thesis
      unfolding matrix_multiply_def get_global_id_def Let_def lid fst_conv snd_conv if_not_P [OF neg]
      by (rule refl)
  qed
  have ids: "local_ids = (0, 0) # map (\<lambda>p. (p div 16, p mod 16)) [1..<256]"
    unfolding local_ids_def by (subst upt_conv_Cons) simp_all
  show ?thesis
    unfolding matrix_multiply_group_def ids for_loop.simps first sum.case
    using rest by (rule for_loop_skip)
qed

text \<open>
  C4 as stated fails where \<open>N + TILE_SIZE - 1\<close> leaves the range of \<open>int\<close>.  With \<open>M = K = 1\<close>
  and \<open>N = 2147483647\<close>, and every element of \<open>A\<close> and \<open>B\<close> equal to 1 (for integers in place of
  \<open>float\<close>s), \<open>N + 15\<close> wraps to a negative number, \<open>numTiles\<close> is negative, the loop over the
  tiles has no round and the tiled kernel writes \<open>C[0] = 0\<close>; the kernel \<open>matrix_multiply\<close>
  writes \<open>C[0] = 2147483647\<close>.
\<close>

theorem tiled_overflow_counterexample:
  "matrix_multiply_tiled \<lparr>fadd = (+), fmul = (*), fzero = 0\<rparr> (replicate 2147483647 1)
     (replicate 2147483647 1) 1 2147483647 1 (0, 0) [9 :: int] = Inr [0]
   \<and> matrix_multiply_group \<lparr>fadd = (+), fmul = (*), fzero = 0\<rparr> (replicate 2147483647 1)
       (replicate 2147483647 1) 1 2147483647 1 (0, 0) [9 :: int] = Inr [2147483647]"
proof -
  have "(2147483647 :: nat) < 2147483648" by simp
  from naive_ones [OF this, of 9]
  have "matrix_multiply_group \<lparr>fadd = (+), fmul = (*), fzero = 0\<rparr> (replicate 2147483647 1)
       (replicate 2147483647 1) 1 2147483647 1 (0, 0) [9 :: int] = Inr [2147483647]"
    by simp
  then show ?thesis using tiled_overflow by (intro conjI)
qed

end
